theory Spec2Isabelle
  imports Main "HOL-Library.Word"
begin

section \<open>Data model\<close>

text \<open>
  The three interfaces of the API client. JavaScript numbers that hold counts are
  integers here. Field names are shared between the records, so they are always written
  qualified (\<open>event.id\<close>, \<open>artist.id\<close>).
\<close>

record artist =
  id :: string
  name :: string
  popularity :: int
  followers :: int
  genres :: string
  image_url :: string

record event =
  id :: string
  name :: string
  date :: string
  venue :: string
  city :: string
  url :: string
  image :: string

record stats =
  artists :: int
  events :: int

text \<open>
  The body of \<open>/health\<close> is whatever JSON value the server sends: \<open>checkHealth\<close>
  reads \<open>response.message\<close> from it without a test, so the value matters beyond its
  declared type. \<open>JObj\<close> holds the properties in the order of the JSON text. Numbers are
  values of a type \<open>'n\<close> whose \<open>0\<close> is the number zero (JSON text has no NaN, and
  \<open>-0\<close> is this zero as well).
\<close>

datatype 'n json =
  JNull | JBool bool | JNum 'n | JStr string | JArr "'n json list"
  | JObj "(string \<times> 'n json) list"

text \<open>
  \<open>value.key\<close> on a value other than \<open>null\<close>: \<open>None\<close> is \<open>undefined\<close>. Only an
  object parsed from JSON has a property \<open>message\<close>; where the text repeats a key the
  last occurrence is the property.
\<close>

definition getProp :: "'n json \<Rightarrow> string \<Rightarrow> 'n json option" where
  "getProp v k = (case v of JObj ps \<Rightarrow> map_of (rev ps) k | _ \<Rightarrow> None)"

text \<open>The left operand of \<open>||\<close> is taken when it is truthy.\<close>

definition truthy :: "('n::zero) json \<Rightarrow> bool" where
  "truthy v = (case v of
                 JNull \<Rightarrow> False
               | JBool b \<Rightarrow> b
               | JNum x \<Rightarrow> x \<noteq> 0
               | JStr s \<Rightarrow> s \<noteq> []
               | JArr xs \<Rightarrow> True
               | JObj ps \<Rightarrow> True)"

text \<open>
  The value \<open>checkHealth\<close> returns. Its message is the message of the body when that is
  truthy, of whatever JSON type it is.
\<close>

record 'n health =
  status :: string
  message :: "'n json"

definition API_BASE_URL :: string where
  "API_BASE_URL = ''http://localhost:8080''"

section \<open>Template literals: numbers as decimal text\<close>

definition digit :: "nat \<Rightarrow> char" where
  "digit d = ''0123456789'' ! d"

function show_nat :: "nat \<Rightarrow> string" where
  "show_nat n = (if n < 10 then [digit n] else show_nat (n div 10) @ [digit (n mod 10)])"
  by pat_completeness auto
termination
  by (relation "measure (\<lambda>n. n)") auto

declare show_nat.simps [simp del]



section \<open>normalizeExternalUrl\<close>

text \<open>
  A JavaScript string is a sequence of 16-bit code units; \<open>trim\<close> and the two regular
  expressions look at code units, so the sanitizer is modelled on them. \<open>js\<close> embeds an
  ASCII literal.
\<close>

type_synonym jsstring = "16 word list"

definition js :: "string \<Rightarrow> jsstring" where
  "js s = map (\<lambda>c. word_of_nat (of_char c)) s"

text \<open>
  \<open>String.prototype.trim\<close> strips WhiteSpace and LineTerminator code points
  (ECMAScript): TAB, LF, VT, FF, CR, SP, NBSP, U+1680, U+2000..U+200A, U+2028, U+2029,
  U+202F, U+205F, U+3000 and U+FEFF.
\<close>

definition isWhiteSpace :: "16 word \<Rightarrow> bool" where
  "isWhiteSpace c \<longleftrightarrow>
     c \<in> set [0x0009, 0x000A, 0x000B, 0x000C, 0x000D, 0x0020, 0x00A0, 0x1680,
              0x2028, 0x2029, 0x202F, 0x205F, 0x3000, 0xFEFF]
     \<or> (0x2000 \<le> c \<and> c \<le> 0x200A)"

definition trim :: "jsstring \<Rightarrow> jsstring" where
  "trim s = rev (dropWhile isWhiteSpace (rev (dropWhile isWhiteSpace s)))"

text \<open>
  Both regular expressions carry the flag \<open>i\<close> and no flag \<open>u\<close>: a pattern character
  and an input code unit match when their canonical forms (upper case) are equal, and a
  code unit from 128 on never canonicalises to an ASCII one. Against the ASCII patterns
  used here that is upper-casing of \<open>a..z\<close> and nothing else.
\<close>

definition canonicalize :: "16 word \<Rightarrow> 16 word" where
  "canonicalize c = (if 0x61 \<le> c \<and> c \<le> 0x7A then c - 0x20 else c)"

definition startsWithCI :: "string \<Rightarrow> jsstring \<Rightarrow> bool" where
  "startsWithCI pat s \<longleftrightarrow>
     take (length pat) (map canonicalize s) = map canonicalize (js pat)"

text \<open>\<^verbatim>\<open>/^https?:\/\//i.test(s)\<close> and \<^verbatim>\<open>/^(javascript:|data:)/i.test(s)\<close>.\<close>

definition isHttpUrl :: "jsstring \<Rightarrow> bool" where
  "isHttpUrl s \<longleftrightarrow> startsWithCI ''http://'' s \<or> startsWithCI ''https://'' s"

definition isDangerous :: "jsstring \<Rightarrow> bool" where
  "isDangerous s \<longleftrightarrow> startsWithCI ''javascript:'' s \<or> startsWithCI ''data:'' s"

text \<open>
  The parameter is optional (\<open>raw?: string\<close>): \<open>None\<close> is \<open>undefined\<close>, and the result
  \<open>None\<close> is \<open>null\<close>. \<open>!raw\<close> holds for \<open>undefined\<close> and for the empty string.
\<close>

definition normalizeExternalUrl :: "jsstring option \<Rightarrow> jsstring option" where
  "normalizeExternalUrl raw =
     (case raw of
        None \<Rightarrow> None
      | Some r \<Rightarrow>
          if r = [] then None
          else let trimmed = trim r in
            if trimmed = [] then None
            else if isHttpUrl trimmed then Some trimmed
            else if isDangerous trimmed then None
            else Some (js ''https://'' @ trimmed))"

section \<open>Mock data\<close>

definition mockArtists :: "artist list" where
  "mockArtists =
     [\<lparr>artist.id = ''1'', name = ''Arctic Monkeys'', popularity = 85, followers = 12000000,
       genres = ''indie rock, alternative rock'', image_url = ''/arctic-monkeys.jpg''\<rparr>,
      \<lparr>artist.id = ''2'', name = ''Tame Impala'', popularity = 82, followers = 8500000,
       genres = ''psychedelic rock, indie pop'', image_url = ''/tame-impala.jpg''\<rparr>,
      \<lparr>artist.id = ''3'', name = ''The Strokes'', popularity = 78, followers = 6200000,
       genres = ''indie rock, garage rock'', image_url = ''/the-strokes.jpg''\<rparr>,
      \<lparr>artist.id = ''4'', name = ''Mac DeMarco'', popularity = 75, followers = 4100000,
       genres = ''indie pop, lo-fi'', image_url = ''/mac-demarco.jpg''\<rparr>]"

definition mockEvents :: "event list" where
  "mockEvents =
     [\<lparr>event.id = ''1'', name = ''Arctic Monkeys World Tour'', date = ''2024-03-15T20:00:00Z'',
       venue = ''Madison Square Garden'', city = ''New York, NY'',
       url = ''https://example.com/tickets/1'', image = ''/arctic-monkeys-concert.jpg''\<rparr>,
      \<lparr>event.id = ''2'', name = ''Tame Impala: Currents Tour'', date = ''2024-03-22T19:30:00Z'',
       venue = ''The Forum'', city = ''Los Angeles, CA'',
       url = ''https://example.com/tickets/2'', image = ''/tame-impala-concert.jpg''\<rparr>]"

section \<open>The network and fetchJson\<close>

text \<open>
  What one call of \<open>fetch\<close> followed by \<open>response.json()\<close> can give: the promise
  rejects (connection refused, DNS, CORS), the 5 second \<open>AbortSignal.timeout\<close> fires, or
  a response arrives with a status code and a body; the body is \<open>None\<close> when it is not
  valid JSON. A body is taken at the type \<open>T\<close> the caller gives \<open>fetchJson<T>\<close>;
  for \<open>checkHealth\<close>, which reads a property of the body without any test, it is an
  arbitrary JSON value.

  The network is any deterministic server: its answer may depend on the URL and on
  every exchange so far. The history of exchanges is the only state the client's
  methods thread; a method returns it extended by the requests it has issued, in order.
\<close>

datatype 'a fetch_result = Rejected | TimedOut | Response nat "'a option"

type_synonym 'a history = "(string \<times> 'a fetch_result) list"

type_synonym 'a network = "'a history \<Rightarrow> string \<Rightarrow> 'a fetch_result"

datatype error = TypeError | TimeoutError | SyntaxError | Error string

definition ok :: "nat \<Rightarrow> bool" where
  "ok st \<longleftrightarrow> 200 \<le> st \<and> st \<le> 299"

definition fetchJson :: "'a network \<Rightarrow> 'a history \<Rightarrow> string \<Rightarrow> (error + 'a) \<times> 'a history" where
  "fetchJson net h endpoint =
     (let u = API_BASE_URL @ endpoint;
          response = net h u;
          h' = h @ [(u, response)]
      in case response of
           Rejected \<Rightarrow> (Inl TypeError, h')
         | TimedOut \<Rightarrow> (Inl TimeoutError, h')
         | Response st body \<Rightarrow>
             if \<not> ok st then (Inl (Error (''HTTP error! status: '' @ show_nat st)), h')
             else (case body of
                     None \<Rightarrow> (Inl SyntaxError, h')
                   | Some data \<Rightarrow> (Inr data, h')))"

text \<open>A result of the network on which \<open>fetchJson\<close> throws.\<close>

definition throws :: "'a fetch_result \<Rightarrow> bool" where
  "throws r = (case r of
                 Rejected \<Rightarrow> True
               | TimedOut \<Rightarrow> True
               | Response st body \<Rightarrow> (if ok st then body = None else True))"

section \<open>The simple methods\<close>

text \<open>
  Every method returns \<open>Inl\<close> for an exception that leaves it and \<open>Inr\<close> for a value.
  \<open>try { ... } catch\<close> is the case distinction on what \<open>fetchJson\<close> gave.
\<close>

text \<open>
  The body of the \<open>try\<close> block of \<open>checkHealth\<close> after \<open>fetchJson\<close> has returned:
  reading \<open>response.message\<close> throws a TypeError when the response is \<open>null\<close>.
\<close>

definition healthOf :: "('n::zero) json \<Rightarrow> error + 'n health" where
  "healthOf response =
     (case response of
        JNull \<Rightarrow> Inl TypeError
      | _ \<Rightarrow>
          Inr \<lparr>health.status = ''connected'',
               message = (case getProp response ''message'' of
                            None \<Rightarrow> JStr ''Backend is healthy''
                          | Some m \<Rightarrow> if truthy m then m else JStr ''Backend is healthy'')\<rparr>)"

definition disconnected :: "'n health" where
  "disconnected = \<lparr>health.status = ''disconnected'',
                    message = JStr ''Java backend not accessible''\<rparr>"

definition checkHealth :: "('n::zero) json network \<Rightarrow> 'n json history
    \<Rightarrow> (error + 'n health) \<times> 'n json history" where
  "checkHealth net h =
     (case fetchJson net h ''/health'' of
        (Inr response, h') \<Rightarrow>
          (case healthOf response of
             Inr result \<Rightarrow> (Inr result, h')
           | Inl e \<Rightarrow> (Inr disconnected, h'))
      | (Inl e, h') \<Rightarrow> (Inr disconnected, h'))"

definition getStats :: "stats network \<Rightarrow> stats history \<Rightarrow> (error + stats) \<times> stats history" where
  "getStats net h =
     (case fetchJson net h ''/stats'' of
        (Inr data, h') \<Rightarrow> (Inr data, h')
      | (Inl e, h') \<Rightarrow>
          (Inr \<lparr>artists = int (length mockArtists), events = int (length mockEvents)\<rparr>, h'))"

text \<open>
  \<open>Array.prototype.slice(0, limit)\<close> on an integer: a negative end counts from the end
  of the array.
\<close>

definition slice0 :: "'a list \<Rightarrow> int \<Rightarrow> 'a list" where
  "slice0 xs limit =
     (if limit < 0 then take (nat (int (length xs) + limit)) xs else take (nat limit) xs)"

text \<open>
  The default parameter \<open>limit = 20\<close>: \<open>None\<close> is a call without the argument. The
  template literal turns the number \<open>limit\<close> into text by the built-in conversion of
  numbers to strings (decimal digits, exponent notation from \<open>1e21\<close> on); it is the
  parameter \<open>toStr\<close>.
\<close>

definition getTopArtists :: "(int \<Rightarrow> string) \<Rightarrow> artist list network \<Rightarrow> artist list history
    \<Rightarrow> int option \<Rightarrow> (error + artist list) \<times> artist list history" where
  "getTopArtists toStr net h limit_arg =
     (let limit = (case limit_arg of None \<Rightarrow> 20 | Some l \<Rightarrow> l) in
      case fetchJson net h (''/artists/top?limit='' @ toStr limit) of
        (Inr data, h') \<Rightarrow> (Inr data, h')
      | (Inl e, h') \<Rightarrow> (Inr (slice0 mockArtists limit), h'))"

definition getTopEvents :: "(int \<Rightarrow> string) \<Rightarrow> event list network \<Rightarrow> event list history
    \<Rightarrow> int option \<Rightarrow> (error + event list) \<times> event list history" where
  "getTopEvents toStr net h limit_arg =
     (let limit = (case limit_arg of None \<Rightarrow> 20 | Some l \<Rightarrow> l) in
      case fetchJson net h (''/events/top?limit='' @ toStr limit) of
        (Inr data, h') \<Rightarrow> (Inr data, h')
      | (Inl e, h') \<Rightarrow> (Inr (slice0 mockEvents limit), h'))"

definition getArtist :: "artist network \<Rightarrow> artist history \<Rightarrow> string
    \<Rightarrow> (error + artist) \<times> artist history" where
  "getArtist net h ident =
     (case fetchJson net h (''/artists/'' @ ident) of
        (Inr data, h') \<Rightarrow> (Inr data, h')
      | (Inl e, h') \<Rightarrow>
          (case find (\<lambda>a. artist.id a = ident) mockArtists of
             None \<Rightarrow> (Inl (Error ''Artist not found''), h')
           | Some a \<Rightarrow> (Inr a, h')))"

definition getEvent :: "event network \<Rightarrow> event history \<Rightarrow> string
    \<Rightarrow> (error + event) \<times> event history" where
  "getEvent net h ident =
     (case fetchJson net h (''/events/'' @ ident) of
        (Inr data, h') \<Rightarrow> (Inr data, h')
      | (Inl e, h') \<Rightarrow>
          (case find (\<lambda>e. event.id e = ident) mockEvents of
             None \<Rightarrow> (Inl (Error ''Event not found''), h')
           | Some e \<Rightarrow> (Inr e, h')))"

text \<open>\<open>String.prototype.includes\<close> (named \<open>str_includes\<close> here): the argument occurs as a contiguous substring.\<close>

fun str_includes :: "string \<Rightarrow> string \<Rightarrow> bool" where
  "str_includes [] sub = (sub = [])"
| "str_includes (c # s) sub = (take (length sub) (c # s) = sub \<or> str_includes s sub)"

text \<open>
  The two search methods call the built-ins \<open>encodeURIComponent\<close> (which throws a
  URIError on a lone surrogate) and \<open>toLowerCase\<close> (Unicode case mapping). Neither is
  code of this repository; they are parameters \<open>enc\<close> and \<open>lower\<close>. The call of
  \<open>encodeURIComponent\<close> stands inside the \<open>try\<close> block, so its exception reaches the
  same \<open>catch\<close> as one of \<open>fetchJson\<close>, before any request is issued.
\<close>

definition searchArtists :: "(string \<Rightarrow> error + string) \<Rightarrow> (string \<Rightarrow> string)
    \<Rightarrow> artist list network \<Rightarrow> artist list history \<Rightarrow> string
    \<Rightarrow> (error + artist list) \<times> artist list history" where
  "searchArtists enc lower net h query =
     (let fallback =
            filter (\<lambda>a. str_includes (lower (artist.name a)) (lower query)
                       \<or> str_includes (lower (artist.genres a)) (lower query)) mockArtists
      in case enc query of
           Inl e \<Rightarrow> (Inr fallback, h)
         | Inr q \<Rightarrow>
             (case fetchJson net h (''/artists/search?q='' @ q) of
                (Inr data, h') \<Rightarrow> (Inr data, h')
              | (Inl e, h') \<Rightarrow> (Inr fallback, h')))"

definition searchEvents :: "(string \<Rightarrow> error + string) \<Rightarrow> (string \<Rightarrow> string)
    \<Rightarrow> event list network \<Rightarrow> event list history \<Rightarrow> string
    \<Rightarrow> (error + event list) \<times> event list history" where
  "searchEvents enc lower net h query =
     (let fallback =
            filter (\<lambda>e. str_includes (lower (event.name e)) (lower query)
                       \<or> str_includes (lower (event.venue e)) (lower query)
                       \<or> str_includes (lower (event.city e)) (lower query)) mockEvents
      in case enc query of
           Inl e \<Rightarrow> (Inr fallback, h)
         | Inr q \<Rightarrow>
             (case fetchJson net h (''/events/search?q='' @ q) of
                (Inr data, h') \<Rightarrow> (Inr data, h')
              | (Inl e, h') \<Rightarrow> (Inr fallback, h')))"

section \<open>getAllArtists\<close>

definition artistLimits :: "nat list" where
  "artistLimits = [50, 100, 250, 500]"

text \<open>
  The \<open>for (const limit of limits)\<close> loop, with the variable \<open>last\<close> (\<open>last_data\<close> here). There is no
  \<open>try\<close> inside the loop: an exception of \<open>fetchJson\<close> leaves the loop at once. At the
  type \<open>Artist[]\<close> the test \<open>!Array.isArray(data)\<close> is false.
\<close>

fun getAllArtists_loop :: "artist list network \<Rightarrow> artist list history \<Rightarrow> artist list
    \<Rightarrow> nat list \<Rightarrow> (error + artist list) \<times> artist list history" where
  "getAllArtists_loop net h last_data [] = (Inr last_data, h)"
| "getAllArtists_loop net h last_data (limit # limits) =
     (case fetchJson net h (''/artists/top?limit='' @ show_nat limit) of
        (Inl e, h') \<Rightarrow> (Inl e, h')
      | (Inr data, h') \<Rightarrow>
          if length data < limit then (Inr data, h')
          else getAllArtists_loop net h' data limits)"

definition getAllArtists :: "artist list network \<Rightarrow> artist list history
    \<Rightarrow> (error + artist list) \<times> artist list history" where
  "getAllArtists net h =
     (case getAllArtists_loop net h [] artistLimits of
        (Inl e, h') \<Rightarrow> (Inr mockArtists, h')
      | (Inr last_data, h') \<Rightarrow> (Inr last_data, h'))"

section \<open>getAllEvents\<close>

subsection \<open>The Map of collected events\<close>

text \<open>
  A JavaScript \<open>Map\<close> keeps its entries in insertion order; \<open>set\<close> on a key that is
  present replaces the value where the entry stands, on a new key it appends.
\<close>

type_synonym ('k, 'v) jsMap = "('k \<times> 'v) list"

definition Map_has :: "('k, 'v) jsMap \<Rightarrow> 'k \<Rightarrow> bool" where
  "Map_has m k \<longleftrightarrow> k \<in> set (map fst m)"

fun Map_set :: "('k, 'v) jsMap \<Rightarrow> 'k \<Rightarrow> 'v \<Rightarrow> ('k, 'v) jsMap" where
  "Map_set [] k v = [(k, v)]"
| "Map_set ((k', v') # m) k v = (if k' = k then (k, v) # m else (k', v') # Map_set m k v)"

definition Map_new :: "('k \<times> 'v) list \<Rightarrow> ('k, 'v) jsMap" where
  "Map_new entries = foldl (\<lambda>m (k, v). Map_set m k v) [] entries"

definition Map_size :: "('k, 'v) jsMap \<Rightarrow> nat" where
  "Map_size m = length m"

definition Map_values :: "('k, 'v) jsMap \<Rightarrow> 'v list" where
  "Map_values m = map snd m"

definition Map_keys :: "('k, 'v) jsMap \<Rightarrow> 'k list" where
  "Map_keys m = map fst m"

text \<open>The helper \<open>merge\<close>; the Map it closes over is a parameter and the result.\<close>

fun merge :: "(string, event) jsMap \<Rightarrow> event list \<Rightarrow> (string, event) jsMap" where
  "merge collectedMap [] = collectedMap"
| "merge collectedMap (ev # arr) =
     merge (if \<not> Map_has collectedMap (event.id ev)
            then Map_set collectedMap (event.id ev) ev else collectedMap) arr"

subsection \<open>Phase 1: the direct limits\<close>

definition directLimits :: "nat list" where
  "directLimits = [500, 400, 300, 250, 200]"

text \<open>
  The first loop ends in one of two ways: \<open>return data\<close> leaves the method, \<open>break\<close>
  or the end of the list leaves the loop with the variable \<open>base\<close>.
\<close>

datatype probe_exit = Return "event list" | Base "event list"

fun directProbe :: "event list network \<Rightarrow> event list history \<Rightarrow> event list \<Rightarrow> nat list
    \<Rightarrow> probe_exit \<times> event list history" where
  "directProbe net h base [] = (Base base, h)"
| "directProbe net h base (limit # limits) =
     (case fetchJson net h (''/events/top?limit='' @ show_nat limit) of
        (Inl e, h') \<Rightarrow> directProbe net h' base limits
      | (Inr data, h') \<Rightarrow>
          if length data < limit then (Return data, h') else (Base data, h'))"

subsection \<open>Phase 2: pagination strategies\<close>

definition maxTotal :: nat where
  "maxTotal = 1000"

record strategy =
  name :: string
  buildUrl :: "nat \<Rightarrow> string"

definition strategies :: "nat \<Rightarrow> strategy list" where
  "strategies pageSize =
     [\<lparr>strategy.name = ''offset'',
       buildUrl = (\<lambda>i. ''/events/top?limit='' @ show_nat pageSize @ ''&offset=''
                        @ show_nat (i * pageSize))\<rparr>,
      \<lparr>strategy.name = ''page0'',
       buildUrl = (\<lambda>i. ''/events/top?limit='' @ show_nat pageSize @ ''&page='' @ show_nat i)\<rparr>,
      \<lparr>strategy.name = ''page1'',
       buildUrl = (\<lambda>i. ''/events/top?limit='' @ show_nat pageSize @ ''&page=''
                        @ show_nat (i + 1))\<rparr>]"

text \<open>
  The inner loop \<open>for (let i = 1; i < 10; i++)\<close> over the list of its indices, with the
  variables \<open>collectedMap\<close> and \<open>success\<close>. At the type \<open>Event[]\<close> the test \<open>!chunk\<close>
  is false, so \<open>!chunk || chunk.length === 0\<close> is \<open>chunk = []\<close>.
\<close>

fun pageLoop :: "event list network \<Rightarrow> strategy \<Rightarrow> nat \<Rightarrow> nat list
    \<Rightarrow> (string, event) jsMap \<Rightarrow> bool \<Rightarrow> event list history
    \<Rightarrow> (string, event) jsMap \<times> bool \<times> event list history" where
  "pageLoop net strat pageSize [] collectedMap success h = (collectedMap, success, h)"
| "pageLoop net strat pageSize (i # is) collectedMap success h =
     (case fetchJson net h (buildUrl strat i) of
        (Inl e, h') \<Rightarrow> (collectedMap, success, h')
      | (Inr chunk, h') \<Rightarrow>
          if chunk = [] then (collectedMap, success, h')
          else
            let before = Map_size collectedMap;
                merged = merge collectedMap chunk;
                after = Map_size merged
            in if after = before then (merged, success, h')
               else if length chunk < pageSize then (merged, True, h')
               else if Map_size merged \<ge> maxTotal then (merged, True, h')
               else pageLoop net strat pageSize is merged True h')"

text \<open>The outer loop \<open>for (const strat of strategies)\<close>, with \<open>strategyUsed\<close>.\<close>

fun strategyLoop :: "event list network \<Rightarrow> nat \<Rightarrow> strategy list
    \<Rightarrow> (string, event) jsMap \<Rightarrow> event list history
    \<Rightarrow> (string, event) jsMap \<times> string option \<times> event list history" where
  "strategyLoop net pageSize [] collectedMap h = (collectedMap, None, h)"
| "strategyLoop net pageSize (strat # strats) collectedMap h =
     (case pageLoop net strat pageSize [1..<10] collectedMap False h of
        (merged, success, h') \<Rightarrow>
          if success then (merged, Some (strategy.name strat), h')
          else strategyLoop net pageSize strats merged h')"

text \<open>
  The body of the outer \<open>try\<close>. \<open>Math.min(base.length, 200) || 200\<close> is 200 when the
  minimum is 0. The \<open>console.log\<close> lines have no effect on the result.
\<close>

definition getAllEvents_try :: "event list network \<Rightarrow> event list history
    \<Rightarrow> (error + event list) \<times> event list history" where
  "getAllEvents_try net h =
     (case directProbe net h [] directLimits of
        (Return data, h') \<Rightarrow> (Inr data, h')
      | (Base base, h') \<Rightarrow>
          if length base = 0 then (Inr mockEvents, h')
          else
            let pageSize = (if min (length base) 200 = 0 then 200 else min (length base) 200);
                collectedMap = Map_new (map (\<lambda>e. (event.id e, e)) base)
            in if Map_size collectedMap \<ge> maxTotal then (Inr (Map_values collectedMap), h')
               else (case strategyLoop net pageSize (strategies pageSize) collectedMap h' of
                       (merged, strategyUsed, h'') \<Rightarrow> (Inr (Map_values merged), h'')))"

definition getAllEvents :: "event list network \<Rightarrow> event list history
    \<Rightarrow> (error + event list) \<times> event list history" where
  "getAllEvents net h =
     (case getAllEvents_try net h of
        (Inl e, h') \<Rightarrow> (Inr mockEvents, h')
      | (Inr result, h') \<Rightarrow> (Inr result, h'))"

section \<open>Vocabulary of the statements\<close>

text \<open>The URLs of the two list endpoints, as \<open>fetchJson\<close> requests them.\<close>

definition eventsTopUrl :: "nat \<Rightarrow> string" where
  "eventsTopUrl limit = API_BASE_URL @ ''/events/top?limit='' @ show_nat limit"

definition artistsTopUrl :: "nat \<Rightarrow> string" where
  "artistsTopUrl limit = API_BASE_URL @ ''/artists/top?limit='' @ show_nat limit"

text \<open>The exchanges a method has added to the history \<open>h\<close> it started from.\<close>

definition issued :: "'a history \<Rightarrow> 'a history \<Rightarrow> 'a history" where
  "issued h h' = drop (length h) h'"

text \<open>
  The data \<open>fetchJson\<close> returns on a result of the network, if it returns; the pages
  received over a sequence of exchanges, in order.
\<close>

definition body_of :: "'a fetch_result \<Rightarrow> 'a option" where
  "body_of r = (case r of Response st (Some d) \<Rightarrow> if ok st then Some d else None | _ \<Rightarrow> None)"

fun bodies :: "'a history \<Rightarrow> 'a list" where
  "bodies [] = []"
| "bodies ((u, r) # X) = (case body_of r of None \<Rightarrow> bodies X | Some d \<Rightarrow> d # bodies X)"

declare bodies.simps(2) [simp del]

text \<open>
  First-seen order: every element once, at the place of its first occurrence
  (\<open>remdups\<close> keeps last occurrences, hence the two reversals).
\<close>

definition firstSeen :: "'a list \<Rightarrow> 'a list" where
  "firstSeen xs = rev (remdups (rev xs))"

definition ids :: "event list list \<Rightarrow> string list" where
  "ids pages = concat (map (map event.id) pages)"

text \<open>The identifiers received over a sequence of exchanges, in first-seen order.\<close>

definition receivedIds :: "event list history \<Rightarrow> string list" where
  "receivedIds X = firstSeen (ids (bodies X))"

text \<open>The page received in the last exchange, empty when that exchange threw.\<close>

definition lastPage :: "event list history \<Rightarrow> event list" where
  "lastPage X = (if X = [] then [] else case body_of (snd (last X)) of None \<Rightarrow> [] | Some p \<Rightarrow> p)"

text \<open>Every entry of the collected Map stands under the identifier of its event.\<close>

definition keyed :: "(string, event) jsMap \<Rightarrow> bool" where
  "keyed m \<longleftrightarrow> map event.id (Map_values m) = Map_keys m"

text \<open>
  \<open>probeFailures limits Xf\<close>: the exchanges \<open>Xf\<close> are requests for the first sizes of
  \<open>limits\<close>, in order, and each of them threw. \<open>fullPages limits Xs\<close>: the exchanges
  \<open>Xs\<close> are requests for the first sizes of \<open>limits\<close>, in order, and each returned at
  least as many artists as requested.
\<close>

definition probeFailures :: "nat list \<Rightarrow> event list history \<Rightarrow> bool" where
  "probeFailures limits Xf \<longleftrightarrow>
     length Xf \<le> length limits
     \<and> map fst Xf = map eventsTopUrl (take (length Xf) limits)
     \<and> list_all (\<lambda>e. throws (snd e)) Xf"

definition fullPages :: "nat list \<Rightarrow> artist list history \<Rightarrow> bool" where
  "fullPages limits Xs \<longleftrightarrow>
     length Xs \<le> length limits
     \<and> map fst Xs = map artistsTopUrl (take (length Xs) limits)
     \<and> list_all2 (\<lambda>e l. \<exists>st d. snd e = Response st (Some d) \<and> ok st \<and> l \<le> length d)
          Xs (take (length Xs) limits)"

section \<open>Concrete servers and inputs\<close>

text \<open>
  Servers and pages on which the statements below are evaluated: \<open>numbered n\<close> is a
  page of \<open>n\<close> events with the identifiers \<open>0\<close> to \<open>n - 1\<close>; \<open>constServer\<close>
  answers every request with status 200 and the same body; \<open>deadServer\<close> rejects every
  request.
\<close>

definition numbered :: "nat \<Rightarrow> event list" where
  "numbered n = map (\<lambda>k. \<lparr>event.id = show_nat k, name = ''Event '' @ show_nat k, date = '''',
                          venue = '''', city = '''', url = '''', image = ''''\<rparr>) [0..<n]"

definition constServer :: "'a \<Rightarrow> 'a network" where
  "constServer page = (\<lambda>h u. Response 200 (Some page))"

definition deadServer :: "'a network" where
  "deadServer = (\<lambda>h u. Rejected)"

text \<open>
  \<open>numberedFrom a n\<close> is the page of the \<open>n\<close> events with the identifiers \<open>a\<close> to
  \<open>a + n - 1\<close>. \<open>freshPages\<close> answers the first request with the events 0 to 499 and
  every later request with the next 200 events: no answer exceeds the requested limit.
\<close>

definition numberedFrom :: "nat \<Rightarrow> nat \<Rightarrow> event list" where
  "numberedFrom a n = drop a (numbered (a + n))"

definition freshPages :: "event list network" where
  "freshPages = (\<lambda>h u. Response 200
      (Some (if h = [] then numbered 500 else numberedFrom (300 + 200 * length h) 200)))"

text \<open>Rejects the request for 50 artists and answers every other one with no artists.\<close>

definition limit50Down :: "artist list network" where
  "limit50Down = (\<lambda>h u. if u = ''http://localhost:8080/artists/top?limit=50'' then Rejected
                         else Response 200 (Some []))"

text \<open>
  Honours the limit of the four requests of \<open>getAllArtists\<close>: as many artists as
  requested.
\<close>

definition honoursLimit :: "artist list network" where
  "honoursLimit = (\<lambda>h u. Response 200 (Some (
      if u = ''http://localhost:8080/artists/top?limit=50'' then replicate 50 (hd mockArtists)
      else if u = ''http://localhost:8080/artists/top?limit=100'' then replicate 100 (hd mockArtists)
      else if u = ''http://localhost:8080/artists/top?limit=250'' then replicate 250 (hd mockArtists)
      else replicate 500 (hd mockArtists))))"

text \<open>Times out on the request for 500 events and answers every other one with three.\<close>

definition secondTry :: "event list network" where
  "secondTry = (\<lambda>h u. if u = ''http://localhost:8080/events/top?limit=500'' then TimedOut
                       else Response 200 (Some (numbered 3)))"

text \<open>
  Health bodies: with a message, with an empty message, and the JSON text \<open>null\<close>.
\<close>

definition healthyServer :: "int json network" where
  "healthyServer =
     constServer (JObj [(''status'', JStr ''UP''), (''message'', JStr ''All systems go'')])"

definition silentServer :: "int json network" where
  "silentServer = constServer (JObj [(''status'', JStr ''UP''), (''message'', JStr [])])"

definition nullServer :: "int json network" where
  "nullServer = constServer JNull"

section \<open>fetchJson\<close>

lemma throws_simps [simp]:
  "throws Rejected" "throws TimedOut" "throws (Response st body) \<longleftrightarrow> (ok st \<longrightarrow> body = None)"
  by (simp_all add: throws_def)

lemma fetchJson_cases:
  "(throws (net h (API_BASE_URL @ ep)) \<and>
      (\<exists>e. fetchJson net h ep = (Inl e, h @ [(API_BASE_URL @ ep, net h (API_BASE_URL @ ep))])))
   \<or> (\<not> throws (net h (API_BASE_URL @ ep)) \<and>
      (\<exists>st d. net h (API_BASE_URL @ ep) = Response st (Some d) \<and> ok st \<and>
      fetchJson net h ep = (Inr d, h @ [(API_BASE_URL @ ep, net h (API_BASE_URL @ ep))])))"
proof (cases "net h (API_BASE_URL @ ep)")
  case Rejected
  then show ?thesis by (simp add: fetchJson_def)
next
  case TimedOut
  then show ?thesis by (simp add: fetchJson_def)
next
  case (Response st body)
  then show ?thesis
    by (cases body; cases "ok st") (simp_all add: fetchJson_def)
qed

lemma fetchJson_throws:
  assumes "throws (net h (API_BASE_URL @ ep))"
  shows "\<exists>e. fetchJson net h ep = (Inl e, h @ [(API_BASE_URL @ ep, net h (API_BASE_URL @ ep))])"
  using fetchJson_cases [of net h ep] assms by blast

lemma fetchJson_value:
  assumes "net h (API_BASE_URL @ ep) = Response st (Some d)" and "ok st"
  shows "fetchJson net h ep = (Inr d, h @ [(API_BASE_URL @ ep, Response st (Some d))])"
  using assms by (simp add: fetchJson_def)

lemma not_throws_iff: "\<not> throws r \<longleftrightarrow> (\<exists>st d. ok st \<and> r = Response st (Some d))"
  by (cases r) auto

section \<open>Properties of normalizeExternalUrl\<close>

lemmas url_eval = normalizeExternalUrl_def js_def trim_def isWhiteSpace_def isHttpUrl_def
  isDangerous_def startsWithCI_def canonicalize_def

lemma dropWhile_all: "(\<forall>x\<in>set (dropWhile P s). P x) \<longleftrightarrow> (\<forall>x\<in>set s. P x)"
  by (induction s) auto

lemma trim_Nil_iff: "trim s = [] \<longleftrightarrow> (\<forall>c\<in>set s. isWhiteSpace c)"
  by (simp add: trim_def dropWhile_eq_Nil_conv dropWhile_all)

lemma startsWithCI_append: "startsWithCI p (js p @ t)"
  by (simp add: startsWithCI_def js_def)

lemma http_not_dangerous: "isHttpUrl s \<Longrightarrow> \<not> isDangerous s"
  by (cases s) (auto simp add: isHttpUrl_def isDangerous_def startsWithCI_def js_def canonicalize_def)

lemma http_nonempty: "isHttpUrl s \<Longrightarrow> s \<noteq> []"
  by (auto simp add: isHttpUrl_def startsWithCI_def js_def canonicalize_def)

text \<open>
  Claim C8. \<open>normalizeExternalUrl\<close> trims its input; an input that is empty or all
  white space (and a missing input) gives null; a trimmed input that starts with
  \<open>http://\<close> or \<open>https://\<close> is returned as trimmed; one that starts with
  \<open>javascript:\<close> or \<open>data:\<close> gives null; any other is returned with \<open>https://\<close> in
  front. The prefixes are compared without regard to case, as the regular expressions
  do. The four examples of the specification evaluate as it says.
\<close>

theorem normalizeExternalUrl_cases:
  "normalizeExternalUrl None = None
   \<and> normalizeExternalUrl (Some raw) =
       (if \<forall>c\<in>set raw. isWhiteSpace c then None
        else if isHttpUrl (trim raw) then Some (trim raw)
        else if isDangerous (trim raw) then None
        else Some (js ''https://'' @ trim raw))
   \<and> normalizeExternalUrl (Some (js ''example.com'')) = Some (js ''https://example.com'')
   \<and> normalizeExternalUrl (Some (js ''javascript:alert(1)'')) = None
   \<and> normalizeExternalUrl (Some (js ''  '')) = None
   \<and> normalizeExternalUrl (Some (js ''https://x.com'')) = Some (js ''https://x.com'')"
proof -
  have a: "normalizeExternalUrl None = None"
    by (simp add: normalizeExternalUrl_def)
  have b: "normalizeExternalUrl (Some raw) =
       (if \<forall>c\<in>set raw. isWhiteSpace c then None
        else if isHttpUrl (trim raw) then Some (trim raw)
        else if isDangerous (trim raw) then None
        else Some (js ''https://'' @ trim raw))"
    using trim_Nil_iff [of raw]
    by (cases "raw = []") (simp_all add: normalizeExternalUrl_def Let_def)
  have c: "normalizeExternalUrl (Some (js ''example.com'')) = Some (js ''https://example.com'')"
    by (simp add: url_eval)
  have d: "normalizeExternalUrl (Some (js ''javascript:alert(1)'')) = None"
    by (simp add: url_eval)
  have e: "normalizeExternalUrl (Some (js ''  '')) = None"
    by (simp add: url_eval)
  have f: "normalizeExternalUrl (Some (js ''https://x.com'')) = Some (js ''https://x.com'')"
    by (simp add: url_eval)
  show ?thesis
    by (intro conjI) (rule a b c d e f)+
qed

theorem normalizeExternalUrl_cases_witness:
  "normalizeExternalUrl (Some (js '' HTTP://a.b  '')) = Some (js ''HTTP://a.b'')
   \<and> normalizeExternalUrl (Some (js ''  Data:text/html,x'')) = None
   \<and> normalizeExternalUrl (Some (js ''a.b/c '')) = Some (js ''https://a.b/c'')
   \<and> normalizeExternalUrl (Some [0x2003, 0x0009]) = None"
proof -
  have w: "trim (js '' HTTP://a.b  '') = js ''HTTP://a.b''"
    by (simp add: js_def trim_def isWhiteSpace_def)
  have h: "isHttpUrl (js ''HTTP://a.b'')"
    by (simp add: js_def isHttpUrl_def startsWithCI_def canonicalize_def)
  have n: "\<not> (\<forall>c\<in>set (js '' HTTP://a.b  ''). isWhiteSpace c)"
    by (simp add: js_def isWhiteSpace_def)
  have 1: "normalizeExternalUrl (Some (js '' HTTP://a.b  '')) = Some (js ''HTTP://a.b'')"
    using normalizeExternalUrl_cases [of "js '' HTTP://a.b  ''"] w h n by simp
  have 2: "normalizeExternalUrl (Some (js ''  Data:text/html,x'')) = None"
    by (simp add: url_eval)
  have 3: "normalizeExternalUrl (Some (js ''a.b/c '')) = Some (js ''https://a.b/c'')"
    by (simp add: url_eval)
  have 4: "normalizeExternalUrl (Some [0x2003, 0x0009]) = None"
    by (simp add: url_eval)
  show ?thesis
    by (intro conjI) (rule 1 2 3 4)+
qed

text \<open>
  Claim C10. Whatever the input, a result of \<open>normalizeExternalUrl\<close> other than null is
  a non-empty string that starts with \<open>http://\<close> or \<open>https://\<close> (in any case of the
  letters), and so does not start with \<open>javascript:\<close> or \<open>data:\<close>.
\<close>

theorem normalizeExternalUrl_http_only:
  "normalizeExternalUrl raw = Some r \<Longrightarrow> r \<noteq> [] \<and> isHttpUrl r \<and> \<not> isDangerous r"
proof -
  assume a: "normalizeExternalUrl raw = Some r"
  have "isHttpUrl r"
    using a startsWithCI_append [of "''https://''"]
    by (auto simp add: normalizeExternalUrl_def Let_def isHttpUrl_def split: option.splits if_splits)
  then show ?thesis
    using http_not_dangerous http_nonempty by blast
qed

theorem normalizeExternalUrl_http_only_witness:
  "normalizeExternalUrl (Some (js ''example.com/a'')) = Some (js ''https://example.com/a'')
   \<and> js ''https://example.com/a'' \<noteq> [] \<and> isHttpUrl (js ''https://example.com/a'')
   \<and> \<not> isDangerous (js ''https://example.com/a'')"
proof -
  have a: "normalizeExternalUrl (Some (js ''example.com/a'')) = Some (js ''https://example.com/a'')"
    by (simp add: url_eval)
  from normalizeExternalUrl_http_only [OF a] a show ?thesis by simp
qed

section \<open>The two probe loops\<close>

lemma fetchJson_events_cases:
  "(throws (net h (eventsTopUrl l)) \<and>
      (\<exists>e. fetchJson net h (''/events/top?limit='' @ show_nat l) = (Inl e, h @ [(eventsTopUrl l, net h (eventsTopUrl l))])))
   \<or> (\<exists>st d. net h (eventsTopUrl l) = Response st (Some d) \<and> ok st \<and>
      fetchJson net h (''/events/top?limit='' @ show_nat l) = (Inr d, h @ [(eventsTopUrl l, Response st (Some d))]))"
  using fetchJson_cases [of net h "''/events/top?limit='' @ show_nat l"]
  by (auto simp add: eventsTopUrl_def)

lemma fetchJson_artists_cases:
  "(throws (net h (artistsTopUrl l)) \<and>
      (\<exists>e. fetchJson net h (''/artists/top?limit='' @ show_nat l) = (Inl e, h @ [(artistsTopUrl l, net h (artistsTopUrl l))])))
   \<or> (\<exists>st d. net h (artistsTopUrl l) = Response st (Some d) \<and> ok st \<and>
      fetchJson net h (''/artists/top?limit='' @ show_nat l) = (Inr d, h @ [(artistsTopUrl l, Response st (Some d))]))"
  using fetchJson_cases [of net h "''/artists/top?limit='' @ show_nat l"]
  by (auto simp add: artistsTopUrl_def)

lemma probeFailures_Nil [simp]: "probeFailures limits []"
  by (simp add: probeFailures_def)

lemma probeFailures_Cons:
  "throws r \<Longrightarrow> probeFailures ls Xf \<Longrightarrow> probeFailures (l # ls) ((eventsTopUrl l, r) # Xf)"
  by (simp add: probeFailures_def)

lemma directProbe_trace:
  "directProbe net h base limits = (ex, h') \<Longrightarrow>
   \<exists>Xf. probeFailures limits Xf
      \<and> ((ex = Base base \<and> h' = h @ Xf \<and> length Xf = length limits)
         \<or> (\<exists>st d. ok st \<and> length Xf < length limits
              \<and> h' = h @ Xf @ [(eventsTopUrl (limits ! length Xf), Response st (Some d))]
              \<and> ex = (if length d < limits ! length Xf then Return d else Base d)))"
proof (induction limits arbitrary: h)
  case Nil
  then have "probeFailures [] [] \<and> ex = Base base \<and> h' = h @ [] \<and> length ([]::event list history) = length ([]::nat list)"
    by simp
  then show ?case by blast
next
  case (Cons l ls)
  from fetchJson_events_cases [of net h l] show ?case
  proof (elim disjE conjE exE)
    fix e
    assume t: "throws (net h (eventsTopUrl l))"
      and f: "fetchJson net h (''/events/top?limit='' @ show_nat l) = (Inl e, h @ [(eventsTopUrl l, net h (eventsTopUrl l))])"
    let ?e = "(eventsTopUrl l, net h (eventsTopUrl l))"
    let ?h1 = "h @ [?e]"
    from Cons.prems f have "directProbe net ?h1 base ls = (ex, h')" by simp
    from Cons.IH [OF this] obtain Xf where
      a: "probeFailures ls Xf"
      and c: "(ex = Base base \<and> h' = ?h1 @ Xf \<and> length Xf = length ls)
         \<or> (\<exists>st d. ok st \<and> length Xf < length ls
              \<and> h' = ?h1 @ Xf @ [(eventsTopUrl (ls ! length Xf), Response st (Some d))]
              \<and> ex = (if length d < ls ! length Xf then Return d else Base d))"
      by blast
    have a': "probeFailures (l # ls) (?e # Xf)" using t a by (rule probeFailures_Cons)
    from c have "(ex = Base base \<and> h' = h @ (?e # Xf) \<and> length (?e # Xf) = length (l # ls))
         \<or> (\<exists>st d. ok st \<and> length (?e # Xf) < length (l # ls)
              \<and> h' = h @ (?e # Xf) @ [(eventsTopUrl ((l # ls) ! length (?e # Xf)), Response st (Some d))]
              \<and> ex = (if length d < (l # ls) ! length (?e # Xf) then Return d else Base d))"
      by auto
    with a' show ?thesis by blast
  next
    fix st d
    assume n: "net h (eventsTopUrl l) = Response st (Some d)" and o: "ok st"
      and f: "fetchJson net h (''/events/top?limit='' @ show_nat l) = (Inr d, h @ [(eventsTopUrl l, Response st (Some d))])"
    from Cons.prems f have "ex = (if length d < l then Return d else Base d)"
      and "h' = h @ [(eventsTopUrl l, Response st (Some d))]"
      by (auto split: if_splits)
    then have "probeFailures (l # ls) []
      \<and> (\<exists>st d. ok st \<and> length ([]::event list history) < length (l # ls)
              \<and> h' = h @ [] @ [(eventsTopUrl ((l # ls) ! length ([]::event list history)), Response st (Some d))]
              \<and> ex = (if length d < (l # ls) ! length ([]::event list history) then Return d else Base d))"
      using o by auto
    then show ?thesis by blast
  qed
qed

lemma fullPages_Nil [simp]: "fullPages limits []"
  by (simp add: fullPages_def)

lemma fullPages_Cons:
  "ok st \<Longrightarrow> l \<le> length d \<Longrightarrow> fullPages ls Xs \<Longrightarrow>
   fullPages (l # ls) ((artistsTopUrl l, Response st (Some d)) # Xs)"
  by (simp add: fullPages_def)

lemma getAllArtists_loop_trace:
  "getAllArtists_loop net h last_data limits = (res, h') \<Longrightarrow>
   \<exists>Xs. fullPages limits Xs
      \<and> ((h' = h @ Xs \<and> length Xs = length limits \<and> res = Inr (last (last_data # bodies Xs)))
         \<or> (\<exists>r e. throws r \<and> length Xs < length limits
              \<and> h' = h @ Xs @ [(artistsTopUrl (limits ! length Xs), r)] \<and> res = Inl e)
         \<or> (\<exists>st d. ok st \<and> length Xs < length limits \<and> length d < limits ! length Xs
              \<and> h' = h @ Xs @ [(artistsTopUrl (limits ! length Xs), Response st (Some d))]
              \<and> res = Inr d))"
proof (induction limits arbitrary: h last_data)
  case Nil
  then have "fullPages [] [] \<and> h' = h @ [] \<and> length ([]::artist list history) = length ([]::nat list)
      \<and> res = Inr (last (last_data # bodies ([]::artist list history)))"
    by auto
  then show ?case by blast
next
  case (Cons l ls)
  from fetchJson_artists_cases [of net h l] show ?case
  proof (elim disjE conjE exE)
    fix e
    assume t: "throws (net h (artistsTopUrl l))"
      and f: "fetchJson net h (''/artists/top?limit='' @ show_nat l) = (Inl e, h @ [(artistsTopUrl l, net h (artistsTopUrl l))])"
    from Cons.prems f have "res = Inl e" "h' = h @ [(artistsTopUrl l, net h (artistsTopUrl l))]"
      by simp_all
    then have "fullPages (l # ls) [] \<and> (\<exists>r e. throws r \<and> length ([]::artist list history) < length (l # ls)
              \<and> h' = h @ [] @ [(artistsTopUrl ((l # ls) ! length ([]::artist list history)), r)] \<and> res = Inl e)"
      using t by auto
    then show ?thesis by blast
  next
    fix st d
    assume n: "net h (artistsTopUrl l) = Response st (Some d)" and o: "ok st"
      and f: "fetchJson net h (''/artists/top?limit='' @ show_nat l) = (Inr d, h @ [(artistsTopUrl l, Response st (Some d))])"
    let ?e = "(artistsTopUrl l, Response st (Some d))"
    show ?thesis
    proof (cases "length d < l")
      case True
      with Cons.prems f have "res = Inr d" "h' = h @ [?e]" by simp_all
      then have "fullPages (l # ls) [] \<and> (\<exists>st d. ok st \<and> length ([]::artist list history) < length (l # ls)
              \<and> length d < (l # ls) ! length ([]::artist list history)
              \<and> h' = h @ [] @ [(artistsTopUrl ((l # ls) ! length ([]::artist list history)), Response st (Some d))]
              \<and> res = Inr d)"
        using o True by auto
      then show ?thesis by blast
    next
      case False
      with Cons.prems f have "getAllArtists_loop net (h @ [?e]) d ls = (res, h')" by simp
      from Cons.IH [OF this] obtain Xs where
        a: "fullPages ls Xs"
        and c: "(h' = (h @ [?e]) @ Xs \<and> length Xs = length ls \<and> res = Inr (last (d # bodies Xs)))
         \<or> (\<exists>r e. throws r \<and> length Xs < length ls
              \<and> h' = (h @ [?e]) @ Xs @ [(artistsTopUrl (ls ! length Xs), r)] \<and> res = Inl e)
         \<or> (\<exists>st d. ok st \<and> length Xs < length ls \<and> length d < ls ! length Xs
              \<and> h' = (h @ [?e]) @ Xs @ [(artistsTopUrl (ls ! length Xs), Response st (Some d))]
              \<and> res = Inr d)"
        by blast
      have a': "fullPages (l # ls) (?e # Xs)"
        using o False a by (intro fullPages_Cons) simp_all
      have lb: "last (last_data # bodies (?e # Xs)) = last (d # bodies Xs)"
        using o by (simp add: bodies.simps(2) body_of_def)
      from c have "(h' = h @ (?e # Xs) \<and> length (?e # Xs) = length (l # ls)
              \<and> res = Inr (last (last_data # bodies (?e # Xs))))
         \<or> (\<exists>r e. throws r \<and> length (?e # Xs) < length (l # ls)
              \<and> h' = h @ (?e # Xs) @ [(artistsTopUrl ((l # ls) ! length (?e # Xs)), r)] \<and> res = Inl e)
         \<or> (\<exists>st d. ok st \<and> length (?e # Xs) < length (l # ls) \<and> length d < (l # ls) ! length (?e # Xs)
              \<and> h' = h @ (?e # Xs) @ [(artistsTopUrl ((l # ls) ! length (?e # Xs)), Response st (Some d))]
              \<and> res = Inr d)"
        unfolding lb by auto
      with a' show ?thesis by blast
    qed
  qed
qed

section \<open>The collected Map\<close>

lemma firstSeen_Nil [simp]: "firstSeen [] = []"
  by (simp add: firstSeen_def)

lemma firstSeen_snoc:
  "firstSeen (xs @ [x]) = (if x \<in> set xs then firstSeen xs else firstSeen xs @ [x])"
  by (simp add: firstSeen_def)

lemma set_firstSeen [simp]: "set (firstSeen xs) = set xs"
  by (simp add: firstSeen_def)

lemma distinct_firstSeen [simp]: "distinct (firstSeen xs)"
  by (simp add: firstSeen_def)

lemma firstSeen_distinct: "distinct xs \<Longrightarrow> firstSeen xs = xs"
  by (simp add: firstSeen_def distinct_remdups_id)

lemma firstSeen_idem: "firstSeen (firstSeen xs @ ys) = firstSeen (xs @ ys)"
proof (induction ys rule: rev_induct)
  case Nil
  then show ?case by (simp add: firstSeen_distinct)
next
  case (snoc y ys)
  have "firstSeen (firstSeen xs @ ys @ [y]) = firstSeen ((firstSeen xs @ ys) @ [y])" by simp
  also have "\<dots> = (if y \<in> set xs \<union> set ys then firstSeen (xs @ ys) else firstSeen (xs @ ys) @ [y])"
    unfolding firstSeen_snoc using snoc.IH by simp
  also have "\<dots> = firstSeen ((xs @ ys) @ [y])"
    unfolding firstSeen_snoc by simp
  finally show ?case by simp
qed

lemma length_firstSeen_le: "length (firstSeen xs) \<le> length xs"
  by (simp add: firstSeen_def) (metis length_remdups_leq length_rev)

lemma length_firstSeen_append:
  "length (firstSeen (xs @ ys)) \<le> length (firstSeen xs) + length ys"
proof (induction ys rule: rev_induct)
  case Nil
  then show ?case by simp
next
  case (snoc y ys)
  have "firstSeen (xs @ ys @ [y]) = firstSeen ((xs @ ys) @ [y])" by simp
  then show ?case using snoc.IH unfolding firstSeen_snoc by (simp del: append_assoc)
qed

lemma Map_keys_Map_set:
  "Map_keys (Map_set m k v) = (if k \<in> set (Map_keys m) then Map_keys m else Map_keys m @ [k])"
  by (induction m) (force simp add: Map_keys_def)+

lemma Map_keys_Map_set_firstSeen:
  "distinct (Map_keys m) \<Longrightarrow> Map_keys (Map_set m k v) = firstSeen (Map_keys m @ [k])"
  by (simp add: Map_keys_Map_set firstSeen_snoc firstSeen_distinct)

lemma Map_has_keys: "Map_has m k \<longleftrightarrow> k \<in> set (Map_keys m)"
  by (simp add: Map_has_def Map_keys_def)

lemma Map_size_keys: "Map_size m = length (Map_keys m)"
  by (simp add: Map_size_def Map_keys_def)

lemma keyed_Map_set_aux:
  "event.id v = k \<Longrightarrow> keyed m \<Longrightarrow> keyed (Map_set m k v)"
  by (induction m k v rule: Map_set.induct) (simp_all add: keyed_def Map_values_def Map_keys_def)

lemma keyed_Map_set:
  "keyed m \<Longrightarrow> keyed (Map_set m (event.id ev) ev)"
  by (simp add: keyed_Map_set_aux)

lemma keyed_Nil [simp]: "keyed []"
  by (simp add: keyed_def Map_values_def Map_keys_def)

lemma merge_keys:
  "distinct (Map_keys m) \<Longrightarrow> Map_keys (merge m chunk) = firstSeen (Map_keys m @ map event.id chunk)"
proof (induction chunk arbitrary: m)
  case Nil
  then show ?case by (simp add: firstSeen_distinct)
next
  case (Cons ev arr)
  let ?m1 = "if \<not> Map_has m (event.id ev) then Map_set m (event.id ev) ev else m"
  have k1: "Map_keys ?m1 = firstSeen (Map_keys m @ [event.id ev])"
    using Cons.prems
    by (simp add: Map_keys_Map_set Map_has_keys firstSeen_snoc firstSeen_distinct)
  then have d1: "distinct (Map_keys ?m1)" by (simp del: firstSeen_snoc)
  have "Map_keys (merge m (ev # arr)) = Map_keys (merge ?m1 arr)" by simp
  also have "\<dots> = firstSeen (Map_keys ?m1 @ map event.id arr)"
    using Cons.IH [OF d1] .
  also have "\<dots> = firstSeen ((Map_keys m @ [event.id ev]) @ map event.id arr)"
    unfolding k1 by (rule firstSeen_idem)
  finally show ?case by simp
qed

lemma merge_keyed: "keyed m \<Longrightarrow> keyed (merge m chunk)"
  by (induction chunk arbitrary: m) (simp_all add: keyed_Map_set)

lemma merge_noop: "\<forall>ev\<in>set chunk. Map_has m (event.id ev) \<Longrightarrow> merge m chunk = m"
  by (induction chunk arbitrary: m) simp_all

lemma merge_size_mono: "Map_size m \<le> Map_size (merge m chunk)"
proof (induction chunk arbitrary: m)
  case Nil
  then show ?case by simp
next
  case (Cons ev arr)
  let ?m1 = "if \<not> Map_has m (event.id ev) then Map_set m (event.id ev) ev else m"
  have "Map_size m \<le> Map_size ?m1"
    by (simp add: Map_size_keys Map_keys_Map_set Map_has_keys)
  also have "\<dots> \<le> Map_size (merge ?m1 arr)" by (rule Cons.IH)
  finally show ?case by simp
qed

lemma merge_same_size:
  "Map_size (merge m chunk) = Map_size m \<Longrightarrow> \<forall>ev\<in>set chunk. Map_has m (event.id ev)"
proof (induction chunk arbitrary: m)
  case Nil
  then show ?case by simp
next
  case (Cons ev arr)
  let ?m1 = "if \<not> Map_has m (event.id ev) then Map_set m (event.id ev) ev else m"
  have a: "Map_size m \<le> Map_size ?m1"
    by (simp add: Map_size_keys Map_keys_Map_set Map_has_keys)
  have b: "Map_size ?m1 \<le> Map_size (merge ?m1 arr)" by (rule merge_size_mono)
  have c: "Map_size (merge ?m1 arr) = Map_size m" using Cons.prems by simp
  from a b c have e1: "Map_size ?m1 = Map_size m" and e2: "Map_size (merge ?m1 arr) = Map_size ?m1"
    by simp_all
  have h: "Map_has m (event.id ev)"
  proof (rule ccontr)
    assume "\<not> Map_has m (event.id ev)"
    then have "Map_size ?m1 = Map_size m + 1"
      by (simp add: Map_size_keys Map_keys_Map_set Map_has_keys)
    with e1 show False by simp
  qed
  then have "?m1 = m" by simp
  with Cons.IH [OF e2] h show ?case by simp
qed

lemma Map_new_aux:
  "distinct (Map_keys m) \<Longrightarrow>
   Map_keys (foldl (\<lambda>m (k, v). Map_set m k v) m es) = firstSeen (Map_keys m @ map fst es)"
proof (induction es arbitrary: m)
  case Nil
  then show ?case by (simp add: firstSeen_distinct)
next
  case (Cons e es)
  obtain k v where e: "e = (k, v)" by (cases e)
  have k1: "Map_keys (Map_set m k v) = firstSeen (Map_keys m @ [k])"
    using Cons.prems by (rule Map_keys_Map_set_firstSeen)
  then have d1: "distinct (Map_keys (Map_set m k v))" by (simp del: firstSeen_snoc)
  have "Map_keys (foldl (\<lambda>m (k, v). Map_set m k v) m (e # es))
      = Map_keys (foldl (\<lambda>m (k, v). Map_set m k v) (Map_set m k v) es)"
    by (simp add: e)
  also have "\<dots> = firstSeen (Map_keys (Map_set m k v) @ map fst es)"
    using Cons.IH [OF d1] .
  also have "\<dots> = firstSeen ((Map_keys m @ [k]) @ map fst es)"
    unfolding k1 by (rule firstSeen_idem)
  finally show ?case by (simp add: e)
qed

lemma Map_new_keys: "Map_keys (Map_new es) = firstSeen (map fst es)"
  using Map_new_aux [of "[]" es] by (simp add: Map_new_def Map_keys_def)

lemma Map_new_keyed_aux:
  "keyed m \<Longrightarrow> keyed (foldl (\<lambda>m (k, v). Map_set m k v) m (map (\<lambda>e. (event.id e, e)) base))"
  by (induction base arbitrary: m) (simp_all add: keyed_Map_set)

lemma Map_new_keyed: "keyed (Map_new (map (\<lambda>e. (event.id e, e)) base))"
  unfolding Map_new_def by (rule Map_new_keyed_aux) simp

lemma Map_set_fresh: "k \<notin> set (Map_keys m) \<Longrightarrow> Map_set m k v = m @ [(k, v)]"
  by (induction m) (auto simp add: Map_keys_def)

lemma Map_new_distinct_aux:
  "distinct (Map_keys m @ map fst es) \<Longrightarrow> foldl (\<lambda>m (k, v). Map_set m k v) m es = m @ es"
proof (induction es arbitrary: m)
  case Nil
  then show ?case by simp
next
  case (Cons e es)
  obtain k v where e: "e = (k, v)" by (cases e)
  have f: "Map_set m k v = m @ [(k, v)]"
    using Cons.prems by (intro Map_set_fresh) (simp add: e)
  have "distinct (Map_keys (m @ [(k, v)]) @ map fst es)"
    using Cons.prems by (simp add: e Map_keys_def)
  from Cons.IH [OF this] show ?case by (simp add: e f)
qed

lemma Map_new_distinct:
  "distinct (map event.id base) \<Longrightarrow> Map_values (Map_new (map (\<lambda>e. (event.id e, e)) base)) = base"
  using Map_new_distinct_aux [of "[]" "map (\<lambda>e. (event.id e, e)) base"]
  by (simp add: Map_new_def Map_keys_def Map_values_def comp_def)

section \<open>The pagination loops\<close>

lemma body_of_throws: "throws r \<Longrightarrow> body_of r = None"
  by (cases r) (auto simp add: body_of_def split: option.splits)

lemma body_of_value: "ok st \<Longrightarrow> body_of (Response st (Some d)) = Some d"
  by (simp add: body_of_def)

lemma bodies_append [simp]: "bodies (X @ Y) = bodies X @ bodies Y"
  by (induction X rule: bodies.induct) (simp_all add: bodies.simps(2) split: option.splits)

lemma bodies_throw [simp]: "throws r \<Longrightarrow> bodies ((u, r) # X) = bodies X"
  by (simp add: body_of_throws bodies.simps(2))

lemma bodies_value [simp]: "ok st \<Longrightarrow> bodies ((u, Response st (Some d)) # X) = d # bodies X"
  by (simp add: body_of_value bodies.simps(2))

lemma ids_simps [simp]:
  "ids [] = []" "ids (p # ps) = map event.id p @ ids ps" "ids (ps @ qs) = ids ps @ ids qs"
  by (simp_all add: ids_def)

lemma pageLoop_trace:
  assumes "pageLoop net strat ps is m s h = (m', s', h')"
    and "Map_keys m = firstSeen A" and "keyed m" and "Map_size m < maxTotal"
  shows "\<exists>X. h' = h @ X \<and> Map_keys m' = firstSeen (A @ ids (bodies X)) \<and> keyed m'
     \<and> (\<forall>k<length X. length (firstSeen (A @ ids (bodies (take k X)))) < maxTotal)
     \<and> (s \<longrightarrow> s') \<and> (\<not> s' \<longrightarrow> m' = m)"
  using assms
proof (induction "is" arbitrary: m s h A)
  case Nil
  then show ?case by simp
next
  case (Cons i "is")
  let ?u = "API_BASE_URL @ buildUrl strat i"
  have sz: "length (firstSeen A) < maxTotal"
    using Cons.prems(2,4) by (simp add: Map_size_keys)
  from fetchJson_cases [of net h "buildUrl strat i"] show ?case
  proof (elim disjE conjE exE)
    fix e
    assume t: "throws (net h ?u)"
      and f: "fetchJson net h (buildUrl strat i) = (Inl e, h @ [(?u, net h ?u)])"
    from Cons.prems(1) f have r: "m' = m" "s' = s" "h' = h @ [(?u, net h ?u)]" by simp_all
    have "h' = h @ [(?u, net h ?u)] \<and> Map_keys m' = firstSeen (A @ ids (bodies [(?u, net h ?u)]))
       \<and> keyed m'
       \<and> (\<forall>k<length [(?u, net h ?u)]. length (firstSeen (A @ ids (bodies (take k [(?u, net h ?u)])))) < maxTotal)
       \<and> (s \<longrightarrow> s') \<and> (\<not> s' \<longrightarrow> m' = m)"
      using r t sz Cons.prems(2,3) by simp
    then show ?thesis by blast
  next
    fix st chunk
    assume n: "net h ?u = Response st (Some chunk)" and o: "ok st"
      and f: "fetchJson net h (buildUrl strat i) = (Inr chunk, h @ [(?u, net h ?u)])"
    let ?e = "(?u, Response st (Some chunk))"
    let ?h1 = "h @ [?e]"
    let ?merged = "merge m chunk"
    have dk: "distinct (Map_keys m)" using Cons.prems(2) by simp
    have km: "Map_keys ?merged = firstSeen (A @ map event.id chunk)"
      using merge_keys [OF dk, of chunk] Cons.prems(2) by (simp add: firstSeen_idem)
    have kd: "keyed ?merged" using Cons.prems(3) by (rule merge_keyed)
    have b1: "bodies [?e] = [chunk]" using o by simp
    have base: "\<forall>k<length [?e]. length (firstSeen (A @ ids (bodies (take k [?e])))) < maxTotal"
      using sz by simp
    show ?thesis
    proof (cases "chunk = [] \<or> Map_size ?merged = Map_size m")
      case True
      then have same: "?merged = m"
        using merge_same_size [of m chunk] merge_noop [of chunk m] by auto
      from Cons.prems(1) f n True have r: "m' = m" "s' = s" "h' = ?h1"
        by (auto simp add: Let_def same split: if_splits)
      have "Map_keys m' = firstSeen (A @ ids (bodies [?e]))"
        using km same r(1) b1 by simp
      with r base Cons.prems(3) show ?thesis by blast
    next
      case False
      then have ne: "chunk \<noteq> []" and grow: "Map_size ?merged \<noteq> Map_size m" by simp_all
      show ?thesis
      proof (cases "length chunk < ps \<or> Map_size ?merged \<ge> maxTotal")
        case True
        from Cons.prems(1) f n ne grow True have r: "m' = ?merged" "s' = True" "h' = ?h1"
          by (auto simp add: Let_def split: if_splits)
        have "Map_keys m' = firstSeen (A @ ids (bodies [?e]))"
          using km r(1) b1 by simp
        with r base kd show ?thesis by blast
      next
        case False
        then have small: "Map_size ?merged < maxTotal" by simp
        from Cons.prems(1) f n ne grow False
        have rec: "pageLoop net strat ps is ?merged True ?h1 = (m', s', h')"
          by (auto simp add: Let_def split: if_splits)
        from Cons.IH [OF rec km kd small] obtain X where
          x1: "h' = ?h1 @ X" and x2: "Map_keys m' = firstSeen ((A @ map event.id chunk) @ ids (bodies X))"
          and x3: "keyed m'"
          and x4: "\<forall>k<length X. length (firstSeen ((A @ map event.id chunk) @ ids (bodies (take k X)))) < maxTotal"
          and x5: "s'"
          by blast
        have "h' = h @ (?e # X)" using x1 by simp
        moreover have "Map_keys m' = firstSeen (A @ ids (bodies (?e # X)))"
          using x2 o by simp
        moreover have "\<forall>k<length (?e # X). length (firstSeen (A @ ids (bodies (take k (?e # X))))) < maxTotal"
          using x4 sz o by (simp add: All_less_Suc2)
        ultimately show ?thesis using x3 x5 by blast
      qed
    qed
  qed
qed

lemma strategyLoop_trace:
  assumes "strategyLoop net ps strats m h = (m', used, h')"
    and "Map_keys m = firstSeen A" and "keyed m" and "Map_size m < maxTotal"
  shows "\<exists>X. h' = h @ X \<and> Map_keys m' = firstSeen (A @ ids (bodies X)) \<and> keyed m'
     \<and> (\<forall>k<length X. length (firstSeen (A @ ids (bodies (take k X)))) < maxTotal)"
  using assms
proof (induction strats arbitrary: m h A)
  case Nil
  then show ?case by simp
next
  case (Cons strat strats)
  obtain m1 s1 h1 where p: "pageLoop net strat ps [1..<10] m False h = (m1, s1, h1)"
    by (cases "pageLoop net strat ps [1..<10] m False h") auto
  from pageLoop_trace [OF p Cons.prems(2,3,4)] obtain X1 where
    a1: "h1 = h @ X1" and a2: "Map_keys m1 = firstSeen (A @ ids (bodies X1))" and a3: "keyed m1"
    and a4: "\<forall>k<length X1. length (firstSeen (A @ ids (bodies (take k X1)))) < maxTotal"
    and a5: "\<not> s1 \<longrightarrow> m1 = m"
    by blast
  show ?case
  proof (cases s1)
    case True
    with Cons.prems(1) p have "m' = m1" "h' = h1" by simp_all
    with a1 a2 a3 a4 show ?thesis by blast
  next
    case False
    with Cons.prems(1) p have rec: "strategyLoop net ps strats m1 h1 = (m', used, h')" by simp
    from False a5 have "m1 = m" by simp
    then have small: "Map_size m1 < maxTotal" using Cons.prems(4) by simp
    from Cons.IH [OF rec a2 a3 small] obtain X2 where
      b1: "h' = h1 @ X2" and b2: "Map_keys m' = firstSeen ((A @ ids (bodies X1)) @ ids (bodies X2))"
      and b3: "keyed m'"
      and b4: "\<forall>k<length X2. length (firstSeen ((A @ ids (bodies X1)) @ ids (bodies (take k X2)))) < maxTotal"
      by blast
    have "h' = h @ (X1 @ X2)" using a1 b1 by simp
    moreover have "Map_keys m' = firstSeen (A @ ids (bodies (X1 @ X2)))" using b2 by simp
    moreover have "\<forall>k<length (X1 @ X2). length (firstSeen (A @ ids (bodies (take k (X1 @ X2))))) < maxTotal"
    proof (intro allI impI)
      fix k assume k: "k < length (X1 @ X2)"
      show "length (firstSeen (A @ ids (bodies (take k (X1 @ X2))))) < maxTotal"
      proof (cases "k < length X1")
        case True
        then show ?thesis using a4 by simp
      next
        case False
        then have "k - length X1 < length X2" using k by simp
        then show ?thesis using b4 False by simp
      qed
    qed
    ultimately show ?thesis using b3 by blast
  qed
qed

section \<open>A run of getAllEvents\<close>

lemma directLimits_ge: "i < length directLimits \<Longrightarrow> 200 \<le> directLimits ! i"
  by (auto simp add: directLimits_def nth_Cons split: nat.splits)

lemma maxTotal_pos: "0 < maxTotal"
  by (simp add: maxTotal_def)

lemma keyed_values: "keyed m \<Longrightarrow> map event.id (Map_values m) = Map_keys m"
  by (simp add: keyed_def)

lemma Map_new_base_keys:
  "Map_keys (Map_new (map (\<lambda>e. (event.id e, e)) base)) = firstSeen (map event.id base)"
  by (simp add: Map_new_keys comp_def)

text \<open>Phase 2 as a whole, from a non-empty base page.\<close>

lemma phase2_run:
  assumes "directProbe net h [] directLimits = (Base d, h1)" and "d \<noteq> []"
  shows "\<exists>X2 res. getAllEvents net h = (Inr res, h1 @ X2)
      \<and> map event.id res = firstSeen (map event.id d @ ids (bodies X2))
      \<and> (\<forall>k<length X2. length (firstSeen (map event.id d @ ids (bodies (take k X2)))) < maxTotal)"
proof -
  let ?ps = "if min (length d) 200 = 0 then 200 else min (length d) 200"
  let ?m0 = "Map_new (map (\<lambda>e. (event.id e, e)) d)"
  have k0: "Map_keys ?m0 = firstSeen (map event.id d)" by (rule Map_new_base_keys)
  have kd0: "keyed ?m0" by (rule Map_new_keyed)
  show ?thesis
  proof (cases "Map_size ?m0 \<ge> maxTotal")
    case True
    then have "getAllEvents_try net h = (Inr (Map_values ?m0), h1)"
      using assms by (simp add: getAllEvents_try_def Let_def)
    then have "getAllEvents net h = (Inr (Map_values ?m0), h1 @ [])"
      by (simp add: getAllEvents_def)
    moreover have "map event.id (Map_values ?m0) = firstSeen (map event.id d @ ids (bodies []))"
      using keyed_values [OF kd0] k0 by simp
    ultimately have "getAllEvents net h = (Inr (Map_values ?m0), h1 @ [])
      \<and> map event.id (Map_values ?m0) = firstSeen (map event.id d @ ids (bodies []))
      \<and> (\<forall>k<length ([]::event list history).
            length (firstSeen (map event.id d @ ids (bodies (take k [])))) < maxTotal)"
      by simp
    then show ?thesis by blast
  next
    case False
    then have small: "Map_size ?m0 < maxTotal" by simp
    obtain m' used h2 where s: "strategyLoop net ?ps (strategies ?ps) ?m0 h1 = (m', used, h2)"
      by (cases "strategyLoop net ?ps (strategies ?ps) ?m0 h1") auto
    from strategyLoop_trace [OF s k0 kd0 small] obtain X2 where
      a1: "h2 = h1 @ X2" and a2: "Map_keys m' = firstSeen (map event.id d @ ids (bodies X2))"
      and a3: "keyed m'"
      and a4: "\<forall>k<length X2. length (firstSeen (map event.id d @ ids (bodies (take k X2)))) < maxTotal"
      by blast
    have "getAllEvents_try net h = (Inr (Map_values m'), h2)"
      using assms False s by (simp add: getAllEvents_try_def Let_def)
    then have "getAllEvents net h = (Inr (Map_values m'), h1 @ X2)"
      using a1 by (simp add: getAllEvents_def)
    moreover have "map event.id (Map_values m') = firstSeen (map event.id d @ ids (bodies X2))"
      using keyed_values [OF a3] a2 by simp
    ultimately show ?thesis using a4 by blast
  qed
qed

lemma getAllEvents_run:
  "\<exists>Xf. probeFailures directLimits Xf \<and>
     ((length Xf = length directLimits \<and> fst (directProbe net h [] directLimits) = Base []
        \<and> getAllEvents net h = (Inr mockEvents, h @ Xf))
      \<or> (\<exists>st d. ok st \<and> length Xf < length directLimits \<and> length d < directLimits ! length Xf
            \<and> fst (directProbe net h [] directLimits) = Return d
            \<and> getAllEvents net h =
                (Inr d, h @ Xf @ [(eventsTopUrl (directLimits ! length Xf), Response st (Some d))]))
      \<or> (\<exists>st d X2 res. ok st \<and> length Xf < length directLimits \<and> directLimits ! length Xf \<le> length d
            \<and> fst (directProbe net h [] directLimits) = Base d
            \<and> getAllEvents net h =
                (Inr res, h @ Xf @ [(eventsTopUrl (directLimits ! length Xf), Response st (Some d))] @ X2)
            \<and> map event.id res = firstSeen (map event.id d @ ids (bodies X2))
            \<and> (\<forall>k<length X2. length (firstSeen (map event.id d @ ids (bodies (take k X2)))) < maxTotal)))"
proof -
  obtain ex h1 where p: "directProbe net h [] directLimits = (ex, h1)"
    by (cases "directProbe net h [] directLimits") auto
  from directProbe_trace [OF p] obtain Xf where
    pf: "probeFailures directLimits Xf"
    and c: "(ex = Base [] \<and> h1 = h @ Xf \<and> length Xf = length directLimits)
         \<or> (\<exists>st d. ok st \<and> length Xf < length directLimits
              \<and> h1 = h @ Xf @ [(eventsTopUrl (directLimits ! length Xf), Response st (Some d))]
              \<and> ex = (if length d < directLimits ! length Xf then Return d else Base d))"
    by blast
  from c show ?thesis
  proof (elim disjE conjE exE)
    assume e: "ex = Base []" and h1: "h1 = h @ Xf" and l: "length Xf = length directLimits"
    have "getAllEvents_try net h = (Inr mockEvents, h @ Xf)"
      using p e h1 by (simp add: getAllEvents_try_def)
    then have "getAllEvents net h = (Inr mockEvents, h @ Xf)"
      by (simp add: getAllEvents_def)
    with pf l p e have "probeFailures directLimits Xf \<and> length Xf = length directLimits
        \<and> fst (directProbe net h [] directLimits) = Base []
        \<and> getAllEvents net h = (Inr mockEvents, h @ Xf)"
      by simp
    then show ?thesis by blast
  next
    fix st d
    assume o: "ok st" and l: "length Xf < length directLimits"
      and h1: "h1 = h @ Xf @ [(eventsTopUrl (directLimits ! length Xf), Response st (Some d))]"
      and e: "ex = (if length d < directLimits ! length Xf then Return d else Base d)"
    show ?thesis
    proof (cases "length d < directLimits ! length Xf")
      case True
      then have "getAllEvents_try net h = (Inr d, h1)"
        using p e by (simp add: getAllEvents_try_def)
      then have "getAllEvents net h = (Inr d, h1)"
        by (simp add: getAllEvents_def)
      with pf o l True p e h1 have "probeFailures directLimits Xf \<and> ok st \<and> length Xf < length directLimits
            \<and> length d < directLimits ! length Xf
            \<and> fst (directProbe net h [] directLimits) = Return d
            \<and> getAllEvents net h =
                (Inr d, h @ Xf @ [(eventsTopUrl (directLimits ! length Xf), Response st (Some d))])"
        by simp
      then show ?thesis by blast
    next
      case False
      then have full: "directLimits ! length Xf \<le> length d" by simp
      with directLimits_ge [OF l] have ne: "d \<noteq> []" by auto
      from p e False have p': "directProbe net h [] directLimits = (Base d, h1)" by simp
      from phase2_run [OF p' ne] obtain X2 res where
        r1: "getAllEvents net h = (Inr res, h1 @ X2)"
        and r2: "map event.id res = firstSeen (map event.id d @ ids (bodies X2))"
        and r3: "\<forall>k<length X2. length (firstSeen (map event.id d @ ids (bodies (take k X2)))) < maxTotal"
        by blast
      have "getAllEvents net h =
          (Inr res, h @ Xf @ [(eventsTopUrl (directLimits ! length Xf), Response st (Some d))] @ X2)"
        using r1 h1 by simp
      with pf o l full p' r2 r3 have "probeFailures directLimits Xf \<and> ok st \<and> length Xf < length directLimits
            \<and> directLimits ! length Xf \<le> length d
            \<and> fst (directProbe net h [] directLimits) = Base d
            \<and> getAllEvents net h =
                (Inr res, h @ Xf @ [(eventsTopUrl (directLimits ! length Xf), Response st (Some d))] @ X2)
            \<and> map event.id res = firstSeen (map event.id d @ ids (bodies X2))
            \<and> (\<forall>k<length X2. length (firstSeen (map event.id d @ ids (bodies (take k X2)))) < maxTotal)"
        by simp
      then show ?thesis by blast
    qed
  qed
qed

lemma probeFailures_nth:
  "probeFailures ls Xf \<Longrightarrow> i < length Xf \<Longrightarrow>
     throws (snd (Xf ! i)) \<and> fst (Xf ! i) = eventsTopUrl (ls ! i)"
proof -
  assume a: "probeFailures ls Xf" and i: "i < length Xf"
  from a have m: "map fst Xf = map eventsTopUrl (take (length Xf) ls)"
    and t: "list_all (\<lambda>e. throws (snd e)) Xf" and l: "length Xf \<le> length ls"
    by (simp_all add: probeFailures_def)
  from t i have "throws (snd (Xf ! i))" by (simp add: list_all_length)
  moreover have "fst (Xf ! i) = map fst Xf ! i" using i by simp
  then have "fst (Xf ! i) = eventsTopUrl (ls ! i)"
    unfolding m using i l by simp
  ultimately show ?thesis by simp
qed

lemma bodies_all_throw: "list_all (\<lambda>e. throws (snd e)) X \<Longrightarrow> bodies X = []"
  by (induction X) auto

lemma probeFailures_bodies: "probeFailures ls Xf \<Longrightarrow> bodies (take k Xf) = []"
proof -
  assume "probeFailures ls Xf"
  then have "list_all (\<lambda>e. throws (snd e)) Xf" by (simp add: probeFailures_def)
  then have "list_all (\<lambda>e. throws (snd e)) (take k Xf)"
    by (auto simp add: list_all_iff dest: in_set_takeD)
  then show ?thesis by (rule bodies_all_throw)
qed

lemma probeFailures_bodies_all: "probeFailures ls Xf \<Longrightarrow> bodies Xf = []"
  using probeFailures_bodies [of ls Xf "length Xf"] by simp

text \<open>
  What the test \<open>collectedMap.size >= maxTotal\<close> does give: every request of a run is
  issued while fewer than \<open>maxTotal\<close> distinct identifiers have been received, and the
  returned sequence has fewer items than \<open>maxTotal\<close> plus the length of the page
  received last.
\<close>

lemma requests_below_maxTotal:
  "\<exists>X res. getAllEvents net h = (Inr res, h @ X)
     \<and> (\<forall>k<length X. length (receivedIds (take k X)) < maxTotal)
     \<and> length res < maxTotal + length (lastPage X)"
proof -
  from getAllEvents_run [of net h] obtain Xf where pf: "probeFailures directLimits Xf"
    and c: "(length Xf = length directLimits \<and> fst (directProbe net h [] directLimits) = Base []
        \<and> getAllEvents net h = (Inr mockEvents, h @ Xf))
      \<or> (\<exists>st d. ok st \<and> length Xf < length directLimits \<and> length d < directLimits ! length Xf
            \<and> fst (directProbe net h [] directLimits) = Return d
            \<and> getAllEvents net h =
                (Inr d, h @ Xf @ [(eventsTopUrl (directLimits ! length Xf), Response st (Some d))]))
      \<or> (\<exists>st d X2 res. ok st \<and> length Xf < length directLimits \<and> directLimits ! length Xf \<le> length d
            \<and> fst (directProbe net h [] directLimits) = Base d
            \<and> getAllEvents net h =
                (Inr res, h @ Xf @ [(eventsTopUrl (directLimits ! length Xf), Response st (Some d))] @ X2)
            \<and> map event.id res = firstSeen (map event.id d @ ids (bodies X2))
            \<and> (\<forall>k<length X2. length (firstSeen (map event.id d @ ids (bodies (take k X2)))) < maxTotal))"
    by blast
  have early: "\<And>k. length (receivedIds (take k Xf)) < maxTotal"
    using probeFailures_bodies [OF pf] maxTotal_pos by (simp add: receivedIds_def)
  from c show ?thesis
  proof (elim disjE conjE exE)
    assume g: "getAllEvents net h = (Inr mockEvents, h @ Xf)"
    have "length mockEvents < maxTotal + length (lastPage Xf)"
      by (simp add: mockEvents_def maxTotal_def)
    with g early show ?thesis by blast
  next
    fix st d
    assume o: "ok st"
      and g: "getAllEvents net h =
                (Inr d, h @ Xf @ [(eventsTopUrl (directLimits ! length Xf), Response st (Some d))])"
    let ?X = "Xf @ [(eventsTopUrl (directLimits ! length Xf), Response st (Some d))]"
    have 1: "\<forall>k<length ?X. length (receivedIds (take k ?X)) < maxTotal"
      using early by simp
    have "lastPage ?X = d" using o by (simp add: lastPage_def body_of_value)
    then have 2: "length d < maxTotal + length (lastPage ?X)" using maxTotal_pos by simp
    from g 1 2 show ?thesis by blast
  next
    fix st d X2 res
    assume o: "ok st"
      and g: "getAllEvents net h =
                (Inr res, h @ Xf @ [(eventsTopUrl (directLimits ! length Xf), Response st (Some d))] @ X2)"
      and r: "map event.id res = firstSeen (map event.id d @ ids (bodies X2))"
      and t: "\<forall>k<length X2. length (firstSeen (map event.id d @ ids (bodies (take k X2)))) < maxTotal"
    let ?e = "(eventsTopUrl (directLimits ! length Xf), Response st (Some d))"
    let ?X = "Xf @ [?e] @ X2"
    have 1: "\<forall>k<length ?X. length (receivedIds (take k ?X)) < maxTotal"
    proof (intro allI impI)
      fix k assume k: "k < length ?X"
      show "length (receivedIds (take k ?X)) < maxTotal"
      proof (cases "k \<le> length Xf")
        case True
        then show ?thesis using early [of k] by simp
      next
        case False
        then obtain k' where k': "k = Suc (length Xf + k')"
          by (metis add_Suc_right less_iff_Suc_add not_le)
        with k have "k' < length X2" by simp
        with t have "length (firstSeen (map event.id d @ ids (bodies (take k' X2)))) < maxTotal"
          by simp
        moreover have "take k ?X = Xf @ ?e # take k' X2" using k' by simp
        ultimately show ?thesis
          using o probeFailures_bodies_all [OF pf] by (simp add: receivedIds_def)
      qed
    qed
    have lr: "length res = length (firstSeen (map event.id d @ ids (bodies X2)))"
      using r by (metis length_map)
    have 2: "length res < maxTotal + length (lastPage ?X)"
    proof (cases X2 rule: rev_cases)
      case Nil
      then have "lastPage ?X = d" using o by (simp add: lastPage_def body_of_value)
      moreover have "length res \<le> length d"
        using lr Nil length_firstSeen_le [of "map event.id d"] by simp
      ultimately show ?thesis using maxTotal_pos by simp
    next
      case (snoc Y e2)
      obtain u2 r2 where e2: "e2 = (u2, r2)" by (cases e2)
      have lp: "length (ids (bodies [e2])) = length (lastPage ?X)"
        by (cases "body_of r2") (simp_all add: snoc e2 lastPage_def bodies.simps(2))
      from t snoc have "length (firstSeen (map event.id d @ ids (bodies Y))) < maxTotal"
        by (metis butlast_snoc length_append_singleton lessI take_all_iff order_refl butlast_conv_take diff_Suc_1)
      moreover have "length (firstSeen ((map event.id d @ ids (bodies Y)) @ ids (bodies [e2])))
          \<le> length (firstSeen (map event.id d @ ids (bodies Y))) + length (ids (bodies [e2]))"
        by (rule length_firstSeen_append)
      ultimately show ?thesis using lr lp snoc by simp
    qed
    from g 1 2 show ?thesis by blast
  qed
qed

text \<open>
  Claim C6. On every run of \<open>getAllEvents\<close> that merges responses, that is, whenever
  the first loop leaves a base page (\<open>base\<close> is not empty) and the collected Map is
  built from it: the sequence returned holds every identifier once, in first-seen order
  over the pages received in the run, and the first of these pages is the base page.
\<close>

theorem pagination_first_seen:
  assumes "fst (directProbe net h [] directLimits) = Base base" and "base \<noteq> []"
  shows "\<exists>X res. getAllEvents net h = (Inr res, h @ X)
     \<and> map event.id res = firstSeen (ids (bodies X))
     \<and> distinct (map event.id res)
     \<and> bodies X \<noteq> [] \<and> hd (bodies X) = base"
proof -
  from getAllEvents_run [of net h] obtain Xf where pf: "probeFailures directLimits Xf"
    and c: "(length Xf = length directLimits \<and> fst (directProbe net h [] directLimits) = Base []
        \<and> getAllEvents net h = (Inr mockEvents, h @ Xf))
      \<or> (\<exists>st d. ok st \<and> length Xf < length directLimits \<and> length d < directLimits ! length Xf
            \<and> fst (directProbe net h [] directLimits) = Return d
            \<and> getAllEvents net h =
                (Inr d, h @ Xf @ [(eventsTopUrl (directLimits ! length Xf), Response st (Some d))]))
      \<or> (\<exists>st d X2 res. ok st \<and> length Xf < length directLimits \<and> directLimits ! length Xf \<le> length d
            \<and> fst (directProbe net h [] directLimits) = Base d
            \<and> getAllEvents net h =
                (Inr res, h @ Xf @ [(eventsTopUrl (directLimits ! length Xf), Response st (Some d))] @ X2)
            \<and> map event.id res = firstSeen (map event.id d @ ids (bodies X2))
            \<and> (\<forall>k<length X2. length (firstSeen (map event.id d @ ids (bodies (take k X2)))) < maxTotal))"
    by blast
  from c assms obtain st X2 res where o: "ok st"
    and g: "getAllEvents net h =
                (Inr res, h @ Xf @ [(eventsTopUrl (directLimits ! length Xf), Response st (Some base))] @ X2)"
    and r: "map event.id res = firstSeen (map event.id base @ ids (bodies X2))"
    by auto
  let ?X = "Xf @ [(eventsTopUrl (directLimits ! length Xf), Response st (Some base))] @ X2"
  have b: "bodies ?X = base # bodies X2"
    using o probeFailures_bodies_all [OF pf] by simp
  have "map event.id res = firstSeen (ids (bodies ?X))" using r b by simp
  moreover from r have "distinct (map event.id res)" by simp
  moreover have "bodies ?X \<noteq> [] \<and> hd (bodies ?X) = base" using b by simp
  ultimately show ?thesis using g by blast
qed

section \<open>The simple methods and the fallback\<close>

text \<open>
  Claim C9, as the code has it. \<open>checkHealth\<close> issues exactly one request, to
  \<open>/health\<close>, and returns a value whatever the network does. The value is
  \<open>disconnected\<close> with the fixed message whenever the \<open>try\<close> block fails: the
  request throws (rejection, time-out, a status outside 200..299, a body that is not
  JSON), or the request succeeds with the body \<open>null\<close> and reading its message throws.
  On every other answer it is \<open>connected\<close>, with the message of the body when the body
  has one that is truthy, and with \<open>Backend is healthy\<close> otherwise (no message, or an
  empty, null, zero or false one: the operator \<open>||\<close>).
\<close>

theorem checkHealth_contract:
  "snd (checkHealth net h) = h @ [(API_BASE_URL @ ''/health'', net h (API_BASE_URL @ ''/health''))]
   \<and> (\<exists>r. fst (checkHealth net h) = Inr r)
   \<and> (throws (net h (API_BASE_URL @ ''/health'')) \<longrightarrow>
        fst (checkHealth net h) =
          Inr \<lparr>health.status = ''disconnected'',
               message = JStr ''Java backend not accessible''\<rparr>)
   \<and> (\<forall>st. net h (API_BASE_URL @ ''/health'') = Response st (Some JNull) \<and> ok st \<longrightarrow>
        fst (checkHealth net h) =
          Inr \<lparr>health.status = ''disconnected'',
               message = JStr ''Java backend not accessible''\<rparr>)
   \<and> (\<forall>st body. net h (API_BASE_URL @ ''/health'') = Response st (Some body) \<and> ok st
          \<and> body \<noteq> JNull \<longrightarrow>
        fst (checkHealth net h) =
          Inr \<lparr>health.status = ''connected'',
               message = (case getProp body ''message'' of
                            None \<Rightarrow> JStr ''Backend is healthy''
                          | Some m \<Rightarrow> if truthy m then m else JStr ''Backend is healthy'')\<rparr>)"
proof -
  let ?u = "API_BASE_URL @ ''/health''"
  have v: "healthOf body =
      Inr \<lparr>health.status = ''connected'',
           message = (case getProp body ''message'' of
                        None \<Rightarrow> JStr ''Backend is healthy''
                      | Some m \<Rightarrow> if truthy m then m else JStr ''Backend is healthy'')\<rparr>"
    if "body \<noteq> JNull" for body :: "'a json"
    using that by (cases body) (simp_all add: healthOf_def)
  have n: "healthOf (JNull :: 'a json) = Inl TypeError" by (simp add: healthOf_def)
  have 1: "snd (checkHealth net h) = h @ [(?u, net h ?u)]"
    using fetchJson_cases [of net h "''/health''"]
    by (auto simp add: checkHealth_def split: sum.splits)
  have 2: "\<exists>r. fst (checkHealth net h) = Inr r"
    using fetchJson_cases [of net h "''/health''"]
    by (auto simp add: checkHealth_def split: sum.splits)
  have 3: "throws (net h ?u) \<longrightarrow> fst (checkHealth net h) =
          Inr \<lparr>health.status = ''disconnected'',
               message = JStr ''Java backend not accessible''\<rparr>"
    using fetchJson_cases [of net h "''/health''"]
    by (auto simp add: checkHealth_def disconnected_def)
  have 4: "\<forall>st. net h ?u = Response st (Some JNull) \<and> ok st \<longrightarrow>
        fst (checkHealth net h) =
          Inr \<lparr>health.status = ''disconnected'',
               message = JStr ''Java backend not accessible''\<rparr>"
    by (auto simp add: checkHealth_def fetchJson_value n disconnected_def)
  have 5: "\<forall>st body. net h ?u = Response st (Some body) \<and> ok st \<and> body \<noteq> JNull \<longrightarrow>
        fst (checkHealth net h) =
          Inr \<lparr>health.status = ''connected'',
               message = (case getProp body ''message'' of
                            None \<Rightarrow> JStr ''Backend is healthy''
                          | Some m \<Rightarrow> if truthy m then m else JStr ''Backend is healthy'')\<rparr>"
    by (auto simp add: checkHealth_def fetchJson_value v)
  from 1 2 3 4 5 show ?thesis by (intro conjI)
qed

lemma never_throws_checkHealth: "\<exists>v. fst (checkHealth net h) = Inr v"
  using fetchJson_cases [of net h "''/health''"]
  by (auto simp add: checkHealth_def split: sum.splits)

lemma never_throws_getStats: "\<exists>v. fst (getStats net h) = Inr v"
  using fetchJson_cases [of net h "''/stats''"] by (auto simp add: getStats_def)

lemma never_throws_getTopArtists: "\<exists>v. fst (getTopArtists toStr net h l) = Inr v"
  using fetchJson_cases [of net h "''/artists/top?limit='' @ toStr (case l of None \<Rightarrow> 20 | Some l \<Rightarrow> l)"]
  by (auto simp add: getTopArtists_def Let_def)

lemma never_throws_getTopEvents: "\<exists>v. fst (getTopEvents toStr net h l) = Inr v"
  using fetchJson_cases [of net h "''/events/top?limit='' @ toStr (case l of None \<Rightarrow> 20 | Some l \<Rightarrow> l)"]
  by (auto simp add: getTopEvents_def Let_def)

lemma never_throws_getAllArtists: "\<exists>v. fst (getAllArtists net h) = Inr v"
  by (simp add: getAllArtists_def split: prod.splits sum.splits)

lemma never_throws_getAllEvents: "\<exists>v. fst (getAllEvents net h) = Inr v"
  by (simp add: getAllEvents_def split: prod.splits sum.splits)

lemma never_throws_searchArtists: "\<exists>v. fst (searchArtists enc lower net h q) = Inr v"
proof (cases "enc q")
  case (Inl e)
  then show ?thesis by (simp add: searchArtists_def Let_def)
next
  case (Inr q')
  then show ?thesis
    using fetchJson_cases [of net h "''/artists/search?q='' @ q'"]
    by (auto simp add: searchArtists_def Let_def)
qed

lemma never_throws_searchEvents: "\<exists>v. fst (searchEvents enc lower net h q) = Inr v"
proof (cases "enc q")
  case (Inl e)
  then show ?thesis by (simp add: searchEvents_def Let_def)
next
  case (Inr q')
  then show ?thesis
    using fetchJson_cases [of net h "''/events/search?q='' @ q'"]
    by (auto simp add: searchEvents_def Let_def)
qed

lemma find_None_ids: "find (\<lambda>a. f a = i) xs = None \<longleftrightarrow> i \<notin> set (map f xs)"
  by (auto simp add: find_None_iff)

lemma getArtist_throws_iff:
  "(throws (net h (API_BASE_URL @ ''/artists/'' @ i)) \<and> i \<notin> set (map artist.id mockArtists) \<longrightarrow>
      fst (getArtist net h i) = Inl (Error ''Artist not found''))
   \<and> (\<not> throws (net h (API_BASE_URL @ ''/artists/'' @ i)) \<or> i \<in> set (map artist.id mockArtists) \<longrightarrow>
      (\<exists>v. fst (getArtist net h i) = Inr v))"
  using fetchJson_cases [of net h "''/artists/'' @ i"] find_None_ids [of artist.id i mockArtists]
  by (cases "find (\<lambda>a. artist.id a = i) mockArtists") (auto simp add: getArtist_def)

lemma getEvent_throws_iff:
  "(throws (net h (API_BASE_URL @ ''/events/'' @ i)) \<and> i \<notin> set (map event.id mockEvents) \<longrightarrow>
      fst (getEvent net h i) = Inl (Error ''Event not found''))
   \<and> (\<not> throws (net h (API_BASE_URL @ ''/events/'' @ i)) \<or> i \<in> set (map event.id mockEvents) \<longrightarrow>
      (\<exists>v. fst (getEvent net h i) = Inr v))"
  using fetchJson_cases [of net h "''/events/'' @ i"] find_None_ids [of event.id i mockEvents]
  by (cases "find (\<lambda>a. event.id a = i) mockEvents") (auto simp add: getEvent_def)

lemma directProbe_all_throw:
  "(\<forall>h u. throws (net h u)) \<Longrightarrow> \<exists>h'. directProbe net h base limits = (Base base, h')"
proof (induction limits arbitrary: h)
  case Nil
  then show ?case by simp
next
  case (Cons limit limits)
  from Cons.prems fetchJson_throws [of net h "''/events/top?limit='' @ show_nat limit"]
  obtain e where "fetchJson net h (''/events/top?limit='' @ show_nat limit) =
      (Inl e, h @ [(API_BASE_URL @ ''/events/top?limit='' @ show_nat limit,
                    net h (API_BASE_URL @ ''/events/top?limit='' @ show_nat limit))])"
    by blast
  then show ?case using Cons.IH [OF Cons.prems] by simp
qed

lemma getAllArtists_loop_first_throws:
  "throws (net h (API_BASE_URL @ ''/artists/top?limit='' @ show_nat limit)) \<Longrightarrow>
   \<exists>e. getAllArtists_loop net h last_data (limit # limits) =
     (Inl e, h @ [(API_BASE_URL @ ''/artists/top?limit='' @ show_nat limit,
                   net h (API_BASE_URL @ ''/artists/top?limit='' @ show_nat limit))])"
  using fetchJson_throws [of net h "''/artists/top?limit='' @ show_nat limit"]
  by auto

text \<open>
  Claim C7. When every request throws, \<open>getAllArtists\<close> returns the four mock artists
  and \<open>getAllEvents\<close> the two mock events.
\<close>

theorem all_requests_fail_mock_data:
  assumes "\<forall>h u. throws (netA h u)" and "\<forall>h u. throws (netE h u)"
  shows "fst (getAllArtists netA hA) = Inr mockArtists \<and> length mockArtists = 4
       \<and> fst (getAllEvents netE hE) = Inr mockEvents \<and> length mockEvents = 2"
proof -
  have "\<exists>e h'. getAllArtists_loop netA hA [] artistLimits = (Inl e, h')"
    unfolding artistLimits_def using getAllArtists_loop_first_throws [of netA hA 50] assms(1) by blast
  then have a: "fst (getAllArtists netA hA) = Inr mockArtists"
    by (auto simp add: getAllArtists_def)
  obtain h' where "directProbe netE hE [] directLimits = (Base [], h')"
    using directProbe_all_throw [OF assms(2)] by blast
  then have b: "fst (getAllEvents netE hE) = Inr mockEvents"
    by (simp add: getAllEvents_def getAllEvents_try_def)
  show ?thesis using a b by (simp add: mockArtists_def mockEvents_def)
qed

section \<open>Runs on the concrete servers\<close>

lemma show_nat_nonempty: "show_nat n \<noteq> []"
  by (subst show_nat.simps) simp

lemma digit_inj: "a < 10 \<Longrightarrow> b < 10 \<Longrightarrow> digit a = digit b \<Longrightarrow> a = b"
proof -
  assume a: "a < 10" and b: "b < 10" and e: "digit a = digit b"
  have d: "distinct ''0123456789''" by simp
  have "a < length ''0123456789''" "b < length ''0123456789''" using a b by simp_all
  with d e show ?thesis unfolding digit_def by (simp only: nth_eq_iff_index_eq)
qed

lemma show_nat_inj: "show_nat n = show_nat m \<Longrightarrow> n = m"
proof (induction n arbitrary: m rule: show_nat.induct)
  case (1 n)
  show ?case
  proof (cases "n < 10")
    case True
    then have sn: "show_nat n = [digit n]" by (subst show_nat.simps) simp
    show ?thesis
    proof (cases "m < 10")
      case True
      then have "show_nat m = [digit m]" by (subst show_nat.simps) simp
      with sn "1.prems" have "digit n = digit m" by simp
      with \<open>n < 10\<close> True show ?thesis by (rule digit_inj)
    next
      case False
      then have "show_nat m = show_nat (m div 10) @ [digit (m mod 10)]"
        by (subst show_nat.simps) simp
      with sn "1.prems" show_nat_nonempty [of "m div 10"] show ?thesis by simp
    qed
  next
    case False
    then have sn: "show_nat n = show_nat (n div 10) @ [digit (n mod 10)]"
      by (subst show_nat.simps) simp
    show ?thesis
    proof (cases "m < 10")
      case True
      then have "show_nat m = [digit m]" by (subst show_nat.simps) simp
      with sn "1.prems" show_nat_nonempty [of "n div 10"] show ?thesis by simp
    next
      case m: False
      then have "show_nat m = show_nat (m div 10) @ [digit (m mod 10)]"
        by (subst show_nat.simps) simp
      with sn "1.prems" have e1: "show_nat (n div 10) = show_nat (m div 10)"
        and e2: "digit (n mod 10) = digit (m mod 10)" by simp_all
      from "1.IH" [OF False e1] have d: "n div 10 = m div 10" .
      have "n mod 10 = m mod 10" using e2 by (intro digit_inj) simp_all
      with d show ?thesis by (metis div_mult_mod_eq)
    qed
  qed
qed

lemma numbered_ids: "map event.id (numbered n) = map show_nat [0..<n]"
  by (simp add: numbered_def comp_def)

lemma numbered_distinct: "distinct (map event.id (numbered n))"
  unfolding numbered_ids by (simp add: distinct_map inj_on_def show_nat_inj)

lemma numbered_length [simp]: "length (numbered n) = n"
  by (simp add: numbered_def)

lemma numbered_nonempty: "0 < n \<Longrightarrow> numbered n \<noteq> []"
  by (simp add: numbered_def)

lemma show_nat_eval:
  "show_nat 500 = ''500''" "show_nat 200 = ''200''" "show_nat 1 = ''1''" "show_nat 2 = ''2''"
  by (simp_all add: show_nat.simps digit_def)

lemma fetchJson_constServer:
  "fetchJson (constServer page) h ep = (Inr page, h @ [(API_BASE_URL @ ep, Response 200 (Some page))])"
  by (simp add: fetchJson_def constServer_def ok_def)

lemma directProbe_constServer:
  "500 \<le> length page \<Longrightarrow>
   directProbe (constServer page) [] [] directLimits =
     (Base page, [(''http://localhost:8080/events/top?limit=500'', Response 200 (Some page))])"
  by (simp add: directLimits_def fetchJson_constServer show_nat_eval API_BASE_URL_def)

lemma pageLoop_constServer:
  "\<forall>ev\<in>set page. Map_has m (event.id ev) \<Longrightarrow> page \<noteq> [] \<Longrightarrow>
   pageLoop (constServer page) strat ps (i # rest) m s h =
     (m, s, h @ [(API_BASE_URL @ buildUrl strat i, Response 200 (Some page))])"
  by (simp add: fetchJson_constServer merge_noop)

lemma Map_new_has:
  "Map_has (Map_new (map (\<lambda>e. (event.id e, e)) base)) k \<longleftrightarrow> k \<in> set (map event.id base)"
  using Map_new_base_keys [of base] by (simp add: Map_has_keys)

lemma pageLoop_constServer_first:
  assumes "\<forall>ev\<in>set page. Map_has m (event.id ev)" and "page \<noteq> []"
  shows "pageLoop (constServer page) strat ps [1..<10] m s h =
     (m, s, h @ [(API_BASE_URL @ buildUrl strat 1, Response 200 (Some page))])"
proof -
  have "[1..<10] = 1 # [2..<10]" by (simp add: upt_rec)
  then show ?thesis using pageLoop_constServer [OF assms] by simp
qed

lemma strategyLoop_constServer:
  assumes "\<forall>ev\<in>set page. Map_has m (event.id ev)" and "page \<noteq> []"
  shows "strategyLoop (constServer page) ps [s1, s2, s3] m h =
     (m, None, h @ [(API_BASE_URL @ buildUrl s1 1, Response 200 (Some page)),
                    (API_BASE_URL @ buildUrl s2 1, Response 200 (Some page)),
                    (API_BASE_URL @ buildUrl s3 1, Response 200 (Some page))])"
  by (simp add: pageLoop_constServer_first [OF assms] del: One_nat_def)

lemma getAllEvents_constServer_500:
  "getAllEvents (constServer (numbered 500)) [] =
     (Inr (numbered 500),
      [(''http://localhost:8080/events/top?limit=500'', Response 200 (Some (numbered 500))),
       (''http://localhost:8080/events/top?limit=200&offset=200'', Response 200 (Some (numbered 500))),
       (''http://localhost:8080/events/top?limit=200&page=1'', Response 200 (Some (numbered 500))),
       (''http://localhost:8080/events/top?limit=200&page=2'', Response 200 (Some (numbered 500)))])"
proof -
  let ?p = "numbered 500"
  let ?m = "Map_new (map (\<lambda>e. (event.id e, e)) ?p)"
  let ?h1 = "[(''http://localhost:8080/events/top?limit=500'', Response 200 (Some ?p))]"
  have v: "Map_values ?m = ?p" using numbered_distinct by (rule Map_new_distinct)
  have "Map_size ?m = length (Map_values ?m)" by (simp add: Map_size_def Map_values_def)
  then have sz: "Map_size ?m = 500" unfolding v by simp
  have has: "\<forall>ev\<in>set ?p. Map_has ?m (event.id ev)" by (simp add: Map_new_has)
  have ne: "?p \<noteq> []" by (rule numbered_nonempty) simp
  have pr: "directProbe (constServer ?p) [] [] directLimits = (Base ?p, ?h1)"
    by (rule directProbe_constServer) simp
  have st: "strategyLoop (constServer ?p) 200 (strategies 200) ?m ?h1 =
      (?m, None,
       [(''http://localhost:8080/events/top?limit=500'', Response 200 (Some ?p)),
        (''http://localhost:8080/events/top?limit=200&offset=200'', Response 200 (Some ?p)),
        (''http://localhost:8080/events/top?limit=200&page=1'', Response 200 (Some ?p)),
        (''http://localhost:8080/events/top?limit=200&page=2'', Response 200 (Some ?p))])"
    unfolding strategies_def strategyLoop_constServer [OF has ne]
    by (simp add: show_nat_eval API_BASE_URL_def del: One_nat_def)
  have "getAllEvents_try (constServer ?p) [] =
     (Inr ?p,
      [(''http://localhost:8080/events/top?limit=500'', Response 200 (Some ?p)),
       (''http://localhost:8080/events/top?limit=200&offset=200'', Response 200 (Some ?p)),
       (''http://localhost:8080/events/top?limit=200&page=1'', Response 200 (Some ?p)),
       (''http://localhost:8080/events/top?limit=200&page=2'', Response 200 (Some ?p))])"
    unfolding getAllEvents_try_def pr
    by (simp add: sz maxTotal_def st v ne)
  then show ?thesis by (simp add: getAllEvents_def)
qed

lemma getAllEvents_constServer_1001:
  "getAllEvents (constServer (numbered 1001)) [] =
     (Inr (numbered 1001),
      [(''http://localhost:8080/events/top?limit=500'', Response 200 (Some (numbered 1001)))])"
proof -
  let ?p = "numbered 1001"
  let ?m = "Map_new (map (\<lambda>e. (event.id e, e)) ?p)"
  have v: "Map_values ?m = ?p" using numbered_distinct by (rule Map_new_distinct)
  have "Map_size ?m = length (Map_values ?m)" by (simp add: Map_size_def Map_values_def)
  then have sz: "Map_size ?m = 1001" unfolding v by simp
  have ne: "?p \<noteq> []" by (rule numbered_nonempty) simp
  have "getAllEvents_try (constServer ?p) [] =
     (Inr ?p, [(''http://localhost:8080/events/top?limit=500'', Response 200 (Some ?p))])"
    unfolding getAllEvents_try_def directProbe_constServer [of ?p, simplified]
    by (simp add: sz maxTotal_def v ne)
  then show ?thesis by (simp add: getAllEvents_def)
qed

lemma show_nat_limits:
  "show_nat 500 = ''500''" "show_nat 400 = ''400''" "show_nat 300 = ''300''"
  "show_nat 250 = ''250''" "show_nat 200 = ''200''" "show_nat 100 = ''100''"
  "show_nat 50 = ''50''"
  by (simp_all add: show_nat.simps digit_def)

lemma numbered_take: "take a (numbered (a + n)) = numbered a"
  by (simp add: numbered_def take_map)

lemma numbered_split: "numbered a @ numberedFrom a n = numbered (a + n)"
  unfolding numberedFrom_def using append_take_drop_id [of a "numbered (a + n)"]
  by (simp only: numbered_take)

lemma numberedFrom_length: "length (numberedFrom a n) = n"
  by (simp add: numberedFrom_def)

lemma numberedFrom_nonempty: "0 < n \<Longrightarrow> numberedFrom a n \<noteq> []"
  using numberedFrom_length [of a n] by auto

lemma merge_fresh:
  "distinct (Map_keys m @ map event.id chunk) \<Longrightarrow>
   merge m chunk = m @ map (\<lambda>e. (event.id e, e)) chunk"
proof (induction chunk arbitrary: m)
  case Nil
  then show ?case by simp
next
  case (Cons ev arr)
  then have f: "event.id ev \<notin> set (Map_keys m)" by auto
  then have s: "Map_set m (event.id ev) ev = m @ [(event.id ev, ev)]" by (rule Map_set_fresh)
  have "distinct (Map_keys (m @ [(event.id ev, ev)]) @ map event.id arr)"
    using Cons.prems by (simp add: Map_keys_def)
  from Cons.IH [OF this] f s show ?case by (simp add: Map_has_keys)
qed

lemma Map_new_numbered:
  "Map_new (map (\<lambda>e. (event.id e, e)) (numbered n)) = map (\<lambda>e. (event.id e, e)) (numbered n)"
  using Map_new_distinct_aux [of "[]" "map (\<lambda>e. (event.id e, e)) (numbered n)"] numbered_distinct [of n]
  by (simp add: Map_new_def Map_keys_def comp_def)

lemma merge_numbered:
  "merge (map (\<lambda>e. (event.id e, e)) (numbered a)) (numberedFrom a n)
     = map (\<lambda>e. (event.id e, e)) (numbered (a + n))"
proof -
  have "distinct (map event.id (numbered a @ numberedFrom a n))"
    unfolding numbered_split by (rule numbered_distinct)
  then have "distinct (Map_keys (map (\<lambda>e. (event.id e, e)) (numbered a)) @ map event.id (numberedFrom a n))"
    by (simp add: Map_keys_def comp_def)
  from merge_fresh [OF this] show ?thesis
    using numbered_split [of a n] by (metis map_append)
qed

lemma Map_size_numbered [simp]: "Map_size (map (\<lambda>e. (event.id e, e)) (numbered n)) = n"
  by (simp add: Map_size_def)

lemma Map_values_numbered [simp]: "Map_values (map (\<lambda>e. (event.id e, e)) (numbered n)) = numbered n"
  by (simp add: Map_values_def comp_def)

lemma pageLoop_freshPages_grow:
  assumes "h \<noteq> []" and "300 + 200 * length h = a" and "a + 200 < maxTotal"
  shows "pageLoop freshPages strat 200 (i # rest) (map (\<lambda>e. (event.id e, e)) (numbered a)) s h =
     pageLoop freshPages strat 200 rest (map (\<lambda>e. (event.id e, e)) (numbered (a + 200))) True
       (h @ [(API_BASE_URL @ buildUrl strat i, Response 200 (Some (numberedFrom a 200)))])"
proof -
  have f: "fetchJson freshPages h (buildUrl strat i) =
      (Inr (numberedFrom a 200), h @ [(API_BASE_URL @ buildUrl strat i, Response 200 (Some (numberedFrom a 200)))])"
    using assms(1,2) by (simp add: fetchJson_def freshPages_def ok_def)
  have n: "numberedFrom a 200 \<noteq> []" by (rule numberedFrom_nonempty) simp
  show ?thesis using assms(3) n by (simp add: f merge_numbered numberedFrom_length)
qed

lemma pageLoop_freshPages_stop:
  assumes "h \<noteq> []" and "300 + 200 * length h = a" and "maxTotal \<le> a + 200"
  shows "pageLoop freshPages strat 200 (i # rest) (map (\<lambda>e. (event.id e, e)) (numbered a)) s h =
     (map (\<lambda>e. (event.id e, e)) (numbered (a + 200)), True,
       h @ [(API_BASE_URL @ buildUrl strat i, Response 200 (Some (numberedFrom a 200)))])"
proof -
  have f: "fetchJson freshPages h (buildUrl strat i) =
      (Inr (numberedFrom a 200), h @ [(API_BASE_URL @ buildUrl strat i, Response 200 (Some (numberedFrom a 200)))])"
    using assms(1,2) by (simp add: fetchJson_def freshPages_def ok_def)
  have n: "numberedFrom a 200 \<noteq> []" by (rule numberedFrom_nonempty) simp
  show ?thesis using assms(3) n by (simp add: f merge_numbered numberedFrom_length)
qed

lemma getAllEvents_freshPages:
  "fst (getAllEvents freshPages []) = Inr (numbered 1100)
   \<and> map fst (snd (getAllEvents freshPages [])) =
       [''http://localhost:8080/events/top?limit=500'',
        ''http://localhost:8080/events/top?limit=200&offset=200'',
        ''http://localhost:8080/events/top?limit=200&offset=400'',
        ''http://localhost:8080/events/top?limit=200&offset=600'']
   \<and> list_all (\<lambda>p. length p \<le> 500) (bodies (snd (getAllEvents freshPages [])))"
proof -
  let ?E = "\<lambda>n. map (\<lambda>e. (event.id e, e)) (numbered n)"
  let ?s = "hd (strategies 200)"
  let ?h1 = "[(''http://localhost:8080/events/top?limit=500'', Response 200 (Some (numbered 500)))]"
  let ?h2 = "?h1 @ [(API_BASE_URL @ buildUrl ?s 1, Response 200 (Some (numberedFrom 500 200)))]"
  let ?h3 = "?h2 @ [(API_BASE_URL @ buildUrl ?s 2, Response 200 (Some (numberedFrom 700 200)))]"
  let ?h4 = "?h3 @ [(API_BASE_URL @ buildUrl ?s 3, Response 200 (Some (numberedFrom 900 200)))]"
  have pr: "directProbe freshPages [] [] directLimits = (Base (numbered 500), ?h1)"
    by (simp add: directLimits_def fetchJson_def freshPages_def ok_def show_nat_limits API_BASE_URL_def)
  have u: "[1..<10] = 1 # 2 # 3 # [4..<10]" by (simp add: upt_rec)
  have p1: "pageLoop freshPages ?s 200 (1 # 2 # 3 # [4..<10]) (?E 500) False ?h1 =
      pageLoop freshPages ?s 200 (2 # 3 # [4..<10]) (?E (500 + 200)) True ?h2"
    by (rule pageLoop_freshPages_grow) (simp_all add: maxTotal_def)
  have p2: "pageLoop freshPages ?s 200 (2 # 3 # [4..<10]) (?E 700) True ?h2 =
      pageLoop freshPages ?s 200 (3 # [4..<10]) (?E (700 + 200)) True ?h3"
    by (rule pageLoop_freshPages_grow) (simp_all add: maxTotal_def)
  have p3: "pageLoop freshPages ?s 200 (3 # [4..<10]) (?E 900) True ?h3 = (?E (900 + 200), True, ?h4)"
    by (rule pageLoop_freshPages_stop) (simp_all add: maxTotal_def)
  have pl: "pageLoop freshPages ?s 200 [1..<10] (?E 500) False ?h1 = (?E 1100, True, ?h4)"
    unfolding u using p1 p2 p3 by simp
  have sl: "strategyLoop freshPages 200 (strategies 200) (?E 500) ?h1 = (?E 1100, Some ''offset'', ?h4)"
  proof -
    have "strategies 200 = ?s # tl (strategies 200)" by (simp add: strategies_def)
    then have "strategyLoop freshPages 200 (strategies 200) (?E 500) ?h1 =
        strategyLoop freshPages 200 (?s # tl (strategies 200)) (?E 500) ?h1" by simp
    also have "\<dots> = (?E 1100, Some (strategy.name ?s), ?h4)"
      by (simp only: strategyLoop.simps pl prod.case if_True)
    finally show ?thesis by (simp add: strategies_def)
  qed
  have g: "getAllEvents freshPages [] = (Inr (numbered 1100), ?h4)"
  proof -
    have "getAllEvents_try freshPages [] = (Inr (numbered 1100), ?h4)"
      unfolding getAllEvents_try_def pr
      by (simp add: Map_new_numbered maxTotal_def sl del: One_nat_def)
    then show ?thesis by (simp add: getAllEvents_def)
  qed
  have us: "map fst ?h4 =
       [''http://localhost:8080/events/top?limit=500'',
        ''http://localhost:8080/events/top?limit=200&offset=200'',
        ''http://localhost:8080/events/top?limit=200&offset=400'',
        ''http://localhost:8080/events/top?limit=200&offset=600'']"
    by (simp add: strategies_def API_BASE_URL_def show_nat.simps digit_def)
  have bs: "list_all (\<lambda>p. length p \<le> 500) (bodies ?h4)"
    by (simp add: ok_def numberedFrom_length)
  show ?thesis unfolding g fst_conv snd_conv using us bs by (intro conjI) simp_all
qed

section \<open>The probe phase\<close>

lemma issued_append [simp]: "issued h (h @ X) = X"
  by (simp add: issued_def)

lemma fullPages_nth:
  "fullPages ls Xs \<Longrightarrow> i < length Xs \<Longrightarrow>
     fst (Xs ! i) = artistsTopUrl (ls ! i)
     \<and> (\<exists>st d. snd (Xs ! i) = Response st (Some d) \<and> ok st \<and> ls ! i \<le> length d)"
proof -
  assume a: "fullPages ls Xs" and i: "i < length Xs"
  from a have m: "map fst Xs = map artistsTopUrl (take (length Xs) ls)"
    and t: "list_all2 (\<lambda>e l. \<exists>st d. snd e = Response st (Some d) \<and> ok st \<and> l \<le> length d)
          Xs (take (length Xs) ls)"
    and l: "length Xs \<le> length ls"
    by (simp_all add: fullPages_def)
  have "fst (Xs ! i) = map fst Xs ! i" using i by simp
  then have u: "fst (Xs ! i) = artistsTopUrl (ls ! i)"
    unfolding m using i l by simp
  from list_all2_nthD [OF t i] i l
  have "\<exists>st d. snd (Xs ! i) = Response st (Some d) \<and> ok st \<and> ls ! i \<le> length d"
    by simp
  with u show ?thesis by simp
qed

lemma getAllArtists_run:
  "\<exists>Xs. fullPages artistLimits Xs
      \<and> (getAllArtists net h = (Inr (last ([] # bodies Xs)), h @ Xs)
           \<and> length Xs = length artistLimits
         \<or> (\<exists>r. throws r \<and> length Xs < length artistLimits
              \<and> getAllArtists net h =
                   (Inr mockArtists, h @ Xs @ [(artistsTopUrl (artistLimits ! length Xs), r)]))
         \<or> (\<exists>st d. ok st \<and> length Xs < length artistLimits \<and> length d < artistLimits ! length Xs
              \<and> getAllArtists net h =
                   (Inr d, h @ Xs @ [(artistsTopUrl (artistLimits ! length Xs), Response st (Some d))])))"
proof -
  obtain res h' where l: "getAllArtists_loop net h [] artistLimits = (res, h')"
    by (cases "getAllArtists_loop net h [] artistLimits") auto
  from getAllArtists_loop_trace [OF l] obtain Xs where f: "fullPages artistLimits Xs"
    and c: "(h' = h @ Xs \<and> length Xs = length artistLimits \<and> res = Inr (last ([] # bodies Xs)))
         \<or> (\<exists>r e. throws r \<and> length Xs < length artistLimits
              \<and> h' = h @ Xs @ [(artistsTopUrl (artistLimits ! length Xs), r)] \<and> res = Inl e)
         \<or> (\<exists>st d. ok st \<and> length Xs < length artistLimits \<and> length d < artistLimits ! length Xs
              \<and> h' = h @ Xs @ [(artistsTopUrl (artistLimits ! length Xs), Response st (Some d))]
              \<and> res = Inr d)"
    by blast
  from c show ?thesis
  proof (elim disjE conjE exE)
    assume "h' = h @ Xs" "length Xs = length artistLimits" "res = Inr (last ([] # bodies Xs))"
    with l have "getAllArtists net h = (Inr (last ([] # bodies Xs)), h @ Xs)"
      by (simp add: getAllArtists_def)
    with f \<open>length Xs = length artistLimits\<close> show ?thesis by blast
  next
    fix r e assume t: "throws r" and n: "length Xs < length artistLimits"
      and "h' = h @ Xs @ [(artistsTopUrl (artistLimits ! length Xs), r)]" "res = Inl e"
    with l have "getAllArtists net h =
        (Inr mockArtists, h @ Xs @ [(artistsTopUrl (artistLimits ! length Xs), r)])"
      by (simp add: getAllArtists_def)
    with f t n show ?thesis by blast
  next
    fix st d assume o: "ok st" and n: "length Xs < length artistLimits"
      and s: "length d < artistLimits ! length Xs"
      and "h' = h @ Xs @ [(artistsTopUrl (artistLimits ! length Xs), Response st (Some d))]"
        "res = Inr d"
    with l have "getAllArtists net h =
        (Inr d, h @ Xs @ [(artistsTopUrl (artistLimits ! length Xs), Response st (Some d))])"
      by (simp add: getAllArtists_def)
    with f o n s show ?thesis by blast
  qed
qed

lemma events_short_page:
  assumes j: "j < length (issued h (snd (getAllEvents net h)))"
    and t: "\<forall>i<j. throws (snd (issued h (snd (getAllEvents net h)) ! i))"
    and r: "snd (issued h (snd (getAllEvents net h)) ! j) = Response st (Some page)"
    and o: "ok st" and s: "length page < directLimits ! j"
  shows "fst (getAllEvents net h) = Inr page
     \<and> length (issued h (snd (getAllEvents net h))) = Suc j
     \<and> fst (issued h (snd (getAllEvents net h)) ! j) = eventsTopUrl (directLimits ! j)"
proof -
  from getAllEvents_run [of net h] obtain Xf where pf: "probeFailures directLimits Xf"
    and c: "(length Xf = length directLimits \<and> fst (directProbe net h [] directLimits) = Base []
        \<and> getAllEvents net h = (Inr mockEvents, h @ Xf))
      \<or> (\<exists>st d. ok st \<and> length Xf < length directLimits \<and> length d < directLimits ! length Xf
            \<and> fst (directProbe net h [] directLimits) = Return d
            \<and> getAllEvents net h =
                (Inr d, h @ Xf @ [(eventsTopUrl (directLimits ! length Xf), Response st (Some d))]))
      \<or> (\<exists>st d X2 res. ok st \<and> length Xf < length directLimits \<and> directLimits ! length Xf \<le> length d
            \<and> fst (directProbe net h [] directLimits) = Base d
            \<and> getAllEvents net h =
                (Inr res, h @ Xf @ [(eventsTopUrl (directLimits ! length Xf), Response st (Some d))] @ X2)
            \<and> map event.id res = firstSeen (map event.id d @ ids (bodies X2))
            \<and> (\<forall>k<length X2. length (firstSeen (map event.id d @ ids (bodies (take k X2)))) < maxTotal))"
    by blast
  have nt: "\<not> throws (Response st (Some page))" using o by simp
  have early: "\<not> j < length Xf" if "issued h (snd (getAllEvents net h)) = Xf @ Y" for Y
  proof
    assume "j < length Xf"
    then have "throws (snd (Xf ! j))" and "(Xf @ Y) ! j = Xf ! j"
      using probeFailures_nth [OF pf] by (simp_all add: nth_append)
    with r that nt show False by simp
  qed
  from c show ?thesis
  proof (elim disjE conjE exE)
    assume g: "getAllEvents net h = (Inr mockEvents, h @ Xf)"
    then have "issued h (snd (getAllEvents net h)) = Xf @ []" by simp
    from early [OF this] j g show ?thesis by simp
  next
    fix st' d
    assume g: "getAllEvents net h =
                (Inr d, h @ Xf @ [(eventsTopUrl (directLimits ! length Xf), Response st' (Some d))])"
    then have x: "issued h (snd (getAllEvents net h)) =
        Xf @ [(eventsTopUrl (directLimits ! length Xf), Response st' (Some d))]" by simp
    from early [OF x] j x have je: "j = length Xf" by simp
    with r x have "page = d" by simp
    with g x je show ?thesis by simp
  next
    fix st' d X2 res
    assume o': "ok st'" and full: "directLimits ! length Xf \<le> length d"
      and g: "getAllEvents net h =
                (Inr res, h @ Xf @ [(eventsTopUrl (directLimits ! length Xf), Response st' (Some d))] @ X2)"
    then have x: "issued h (snd (getAllEvents net h)) =
        Xf @ ([(eventsTopUrl (directLimits ! length Xf), Response st' (Some d))] @ X2)" by simp
    from early [OF x] have ge: "length Xf \<le> j" by simp
    have at: "issued h (snd (getAllEvents net h)) ! length Xf =
        (eventsTopUrl (directLimits ! length Xf), Response st' (Some d))"
      unfolding x by (simp add: nth_append)
    show ?thesis
    proof (cases "j = length Xf")
      case True
      with r at have "page = d" by simp
      with s full True show ?thesis by simp
    next
      case False
      with ge have "length Xf < j" by simp
      with t have "throws (snd (issued h (snd (getAllEvents net h)) ! length Xf))" by simp
      with at o' show ?thesis by simp
    qed
  qed
qed

lemma artists_short_page:
  assumes j: "j < length (issued h (snd (getAllArtists net h)))"
    and r: "snd (issued h (snd (getAllArtists net h)) ! j) = Response st (Some page)"
    and o: "ok st" and s: "length page < artistLimits ! j"
  shows "fst (getAllArtists net h) = Inr page
     \<and> length (issued h (snd (getAllArtists net h))) = Suc j
     \<and> fst (issued h (snd (getAllArtists net h)) ! j) = artistsTopUrl (artistLimits ! j)"
proof -
  from getAllArtists_run [of net h] obtain Xs where f: "fullPages artistLimits Xs"
    and c: "(\<exists>d. getAllArtists net h = (Inr d, h @ Xs)) \<and> length Xs = length artistLimits
         \<or> (\<exists>r. throws r \<and> length Xs < length artistLimits
              \<and> getAllArtists net h =
                   (Inr mockArtists, h @ Xs @ [(artistsTopUrl (artistLimits ! length Xs), r)]))
         \<or> (\<exists>st d. ok st \<and> length Xs < length artistLimits \<and> length d < artistLimits ! length Xs
              \<and> getAllArtists net h =
                   (Inr d, h @ Xs @ [(artistsTopUrl (artistLimits ! length Xs), Response st (Some d))]))"
    by blast
  have early: "\<not> j < length Xs" if "issued h (snd (getAllArtists net h)) = Xs @ Y" for Y
  proof
    assume a: "j < length Xs"
    then have "(Xs @ Y) ! j = Xs ! j" by (simp add: nth_append)
    moreover from fullPages_nth [OF f a] obtain st' d where
      "snd (Xs ! j) = Response st' (Some d)" "artistLimits ! j \<le> length d" by blast
    ultimately show False using r that s by simp
  qed
  from c show ?thesis
  proof (elim disjE conjE exE)
    fix d assume g: "getAllArtists net h = (Inr d, h @ Xs)"
    then have "issued h (snd (getAllArtists net h)) = Xs @ []" by simp
    from early [OF this] j g show ?thesis by simp
  next
    fix r' assume t: "throws r'"
      and g: "getAllArtists net h =
                   (Inr mockArtists, h @ Xs @ [(artistsTopUrl (artistLimits ! length Xs), r')])"
    then have x: "issued h (snd (getAllArtists net h)) =
        Xs @ [(artistsTopUrl (artistLimits ! length Xs), r')]" by simp
    from early [OF x] j x have je: "j = length Xs" by simp
    with r x have "r' = Response st (Some page)" by simp
    with t o show ?thesis by simp
  next
    fix st' d
    assume g: "getAllArtists net h =
                   (Inr d, h @ Xs @ [(artistsTopUrl (artistLimits ! length Xs), Response st' (Some d))])"
    then have x: "issued h (snd (getAllArtists net h)) =
        Xs @ [(artistsTopUrl (artistLimits ! length Xs), Response st' (Some d))]" by simp
    from early [OF x] j x have je: "j = length Xs" by simp
    with r x have "page = d" by simp
    with g x je show ?thesis by simp
  qed
qed

text \<open>
  Claim C4. In the run of \<open>getAllEvents\<close>: when the requests before the \<open>j\<close>-th all
  threw (so that the \<open>j\<close>-th is the request of the first loop for the size
  \<open>directLimits ! j\<close>) and the \<open>j\<close>-th is answered with fewer events than that size,
  the method returns exactly that page and the \<open>j\<close>-th request is its last. In the run
  of \<open>getAllArtists\<close>, whose \<open>j\<close>-th request is for the size \<open>artistLimits ! j\<close>:
  when it is answered with fewer artists than that size, the method returns exactly that
  page and issues no further request.
\<close>

theorem short_page_returned:
  "(\<forall>j st page.
       j < length (issued hE (snd (getAllEvents netE hE)))
       \<and> (\<forall>i<j. throws (snd (issued hE (snd (getAllEvents netE hE)) ! i)))
       \<and> snd (issued hE (snd (getAllEvents netE hE)) ! j) = Response st (Some page)
       \<and> ok st \<and> length page < directLimits ! j
     \<longrightarrow> fst (getAllEvents netE hE) = Inr page
         \<and> length (issued hE (snd (getAllEvents netE hE))) = Suc j
         \<and> fst (issued hE (snd (getAllEvents netE hE)) ! j) = eventsTopUrl (directLimits ! j))
   \<and> (\<forall>j st page.
       j < length (issued hA (snd (getAllArtists netA hA)))
       \<and> snd (issued hA (snd (getAllArtists netA hA)) ! j) = Response st (Some page)
       \<and> ok st \<and> length page < artistLimits ! j
     \<longrightarrow> fst (getAllArtists netA hA) = Inr page
         \<and> length (issued hA (snd (getAllArtists netA hA))) = Suc j
         \<and> fst (issued hA (snd (getAllArtists netA hA)) ! j) = artistsTopUrl (artistLimits ! j))"
proof -
  have e: "\<forall>j st page.
       j < length (issued hE (snd (getAllEvents netE hE)))
       \<and> (\<forall>i<j. throws (snd (issued hE (snd (getAllEvents netE hE)) ! i)))
       \<and> snd (issued hE (snd (getAllEvents netE hE)) ! j) = Response st (Some page)
       \<and> ok st \<and> length page < directLimits ! j
     \<longrightarrow> fst (getAllEvents netE hE) = Inr page
         \<and> length (issued hE (snd (getAllEvents netE hE))) = Suc j
         \<and> fst (issued hE (snd (getAllEvents netE hE)) ! j) = eventsTopUrl (directLimits ! j)"
    using events_short_page [of _ hE netE] by blast
  have a: "\<forall>j st page.
       j < length (issued hA (snd (getAllArtists netA hA)))
       \<and> snd (issued hA (snd (getAllArtists netA hA)) ! j) = Response st (Some page)
       \<and> ok st \<and> length page < artistLimits ! j
     \<longrightarrow> fst (getAllArtists netA hA) = Inr page
         \<and> length (issued hA (snd (getAllArtists netA hA))) = Suc j
         \<and> fst (issued hA (snd (getAllArtists netA hA)) ! j) = artistsTopUrl (artistLimits ! j)"
    using artists_short_page [of _ hA netA] by blast
  from e a show ?thesis by (rule conjI)
qed

lemma events_next_size:
  assumes j: "j < length directLimits"
    and t: "\<forall>i<j. i < length (issued h (snd (getAllEvents net h)))
              \<and> throws (snd (issued h (snd (getAllEvents net h)) ! i))"
  shows "j < length (issued h (snd (getAllEvents net h)))
     \<and> fst (issued h (snd (getAllEvents net h)) ! j) = eventsTopUrl (directLimits ! j)"
proof -
  from getAllEvents_run [of net h] obtain Xf Y where pf: "probeFailures directLimits Xf"
    and c: "(length Xf = length directLimits \<and> issued h (snd (getAllEvents net h)) = Xf)
      \<or> (\<exists>st d. ok st \<and> length Xf < length directLimits
            \<and> issued h (snd (getAllEvents net h)) =
                Xf @ (eventsTopUrl (directLimits ! length Xf), Response st (Some d)) # Y)"
    by (elim exE conjE disjE) (rule that, assumption, simp)+
  from c show ?thesis
  proof (elim disjE conjE exE)
    assume l: "length Xf = length directLimits" and x: "issued h (snd (getAllEvents net h)) = Xf"
    with j probeFailures_nth [OF pf, of j] show ?thesis by simp
  next
    fix st d
    assume o: "ok st"
      and x: "issued h (snd (getAllEvents net h)) =
                Xf @ (eventsTopUrl (directLimits ! length Xf), Response st (Some d)) # Y"
    have le: "j \<le> length Xf"
    proof (rule ccontr)
      assume "\<not> j \<le> length Xf"
      then have "length Xf < j" by simp
      with t have "throws (snd (issued h (snd (getAllEvents net h)) ! length Xf))" by simp
      with x o show False by (simp add: nth_append)
    qed
    show ?thesis
    proof (cases "j = length Xf")
      case True
      with x show ?thesis by (simp add: nth_append)
    next
      case False
      with le have "j < length Xf" by simp
      with x probeFailures_nth [OF pf, of j] show ?thesis by (simp add: nth_append)
    qed
  qed
qed

lemma events_all_throw:
  assumes t: "\<forall>i<length directLimits. i < length (issued h (snd (getAllEvents net h)))
              \<and> throws (snd (issued h (snd (getAllEvents net h)) ! i))"
  shows "fst (getAllEvents net h) = Inr mockEvents
     \<and> length (issued h (snd (getAllEvents net h))) = length directLimits"
proof -
  from getAllEvents_run [of net h] obtain Xf Y where pf: "probeFailures directLimits Xf"
    and c: "(length Xf = length directLimits \<and> getAllEvents net h = (Inr mockEvents, h @ Xf))
      \<or> (\<exists>st d. ok st \<and> length Xf < length directLimits
            \<and> issued h (snd (getAllEvents net h)) =
                Xf @ (eventsTopUrl (directLimits ! length Xf), Response st (Some d)) # Y)"
    by (elim exE conjE disjE) (rule that, assumption, simp)+
  from c show ?thesis
  proof (elim disjE conjE exE)
    assume "length Xf = length directLimits" "getAllEvents net h = (Inr mockEvents, h @ Xf)"
    then show ?thesis by simp
  next
    fix st d
    assume o: "ok st" and l: "length Xf < length directLimits"
      and x: "issued h (snd (getAllEvents net h)) =
                Xf @ (eventsTopUrl (directLimits ! length Xf), Response st (Some d)) # Y"
    from t l have "throws (snd (issued h (snd (getAllEvents net h)) ! length Xf))" by simp
    with x o show ?thesis by (simp add: nth_append)
  qed
qed

lemma events_fallback_only_if:
  assumes b: "fst (directProbe net h [] directLimits) = Base []"
  shows "\<forall>i<length directLimits. i < length (issued h (snd (getAllEvents net h)))
              \<and> throws (snd (issued h (snd (getAllEvents net h)) ! i))"
proof -
  from getAllEvents_run [of net h] obtain Xf where pf: "probeFailures directLimits Xf"
    and c: "(length Xf = length directLimits \<and> getAllEvents net h = (Inr mockEvents, h @ Xf))
      \<or> (\<exists>d. fst (directProbe net h [] directLimits) = Return d)
      \<or> (\<exists>d. length Xf < length directLimits \<and> directLimits ! length Xf \<le> length d
            \<and> fst (directProbe net h [] directLimits) = Base d)"
    by (elim exE conjE disjE) (rule that, assumption, blast)+
  from c show ?thesis
  proof (elim disjE conjE exE)
    assume l: "length Xf = length directLimits" and g: "getAllEvents net h = (Inr mockEvents, h @ Xf)"
    then have "issued h (snd (getAllEvents net h)) = Xf" by simp
    with l probeFailures_nth [OF pf] show ?thesis by simp
  next
    fix d assume "fst (directProbe net h [] directLimits) = Return d"
    with b show ?thesis by simp
  next
    fix d assume l: "length Xf < length directLimits" and "directLimits ! length Xf \<le> length d"
      and "fst (directProbe net h [] directLimits) = Base d"
    with b directLimits_ge [OF l] show ?thesis by simp
  qed
qed

lemma artists_requests:
  "issued h (snd (getAllArtists net h)) \<noteq> []
   \<and> length (issued h (snd (getAllArtists net h))) \<le> length artistLimits
   \<and> (\<forall>j<length (issued h (snd (getAllArtists net h))).
         fst (issued h (snd (getAllArtists net h)) ! j) = artistsTopUrl (artistLimits ! j))"
proof -
  from getAllArtists_run [of net h] obtain Xs where f: "fullPages artistLimits Xs"
    and c: "(length Xs = length artistLimits \<and> issued h (snd (getAllArtists net h)) = Xs)
         \<or> (\<exists>r. length Xs < length artistLimits
              \<and> issued h (snd (getAllArtists net h)) = Xs @ [(artistsTopUrl (artistLimits ! length Xs), r)])"
    by (elim exE conjE disjE) (rule that, assumption, simp)+
  have n: "\<And>j. j < length Xs \<Longrightarrow> fst (Xs ! j) = artistsTopUrl (artistLimits ! j)"
    using fullPages_nth [OF f] by simp
  from c show ?thesis
  proof (elim disjE conjE exE)
    assume l: "length Xs = length artistLimits" and x: "issued h (snd (getAllArtists net h)) = Xs"
    from l have "Xs \<noteq> []" by (auto simp add: artistLimits_def)
    with l x n show ?thesis by simp
  next
    fix r
    assume l: "length Xs < length artistLimits"
      and x: "issued h (snd (getAllArtists net h)) = Xs @ [(artistsTopUrl (artistLimits ! length Xs), r)]"
    have "\<forall>j<length (Xs @ [(artistsTopUrl (artistLimits ! length Xs), r)]).
         fst ((Xs @ [(artistsTopUrl (artistLimits ! length Xs), r)]) ! j) = artistsTopUrl (artistLimits ! j)"
      using n by (auto simp add: nth_append less_Suc_eq)
    with l x show ?thesis by simp
  qed
qed

lemma artists_throw_fallback:
  assumes j: "j < length (issued h (snd (getAllArtists net h)))"
    and t: "throws (snd (issued h (snd (getAllArtists net h)) ! j))"
  shows "fst (getAllArtists net h) = Inr mockArtists
     \<and> length (issued h (snd (getAllArtists net h))) = Suc j"
proof -
  from getAllArtists_run [of net h] obtain Xs where f: "fullPages artistLimits Xs"
    and c: "(\<exists>d. getAllArtists net h = (Inr d, h @ Xs)) \<and> length Xs = length artistLimits
         \<or> (\<exists>r. throws r \<and> length Xs < length artistLimits
              \<and> getAllArtists net h =
                   (Inr mockArtists, h @ Xs @ [(artistsTopUrl (artistLimits ! length Xs), r)]))
         \<or> (\<exists>st d. ok st \<and> length Xs < length artistLimits \<and> length d < artistLimits ! length Xs
              \<and> getAllArtists net h =
                   (Inr d, h @ Xs @ [(artistsTopUrl (artistLimits ! length Xs), Response st (Some d))]))"
    by blast
  have early: "\<not> j < length Xs" if "issued h (snd (getAllArtists net h)) = Xs @ Y" for Y
  proof
    assume a: "j < length Xs"
    then have "(Xs @ Y) ! j = Xs ! j" by (simp add: nth_append)
    moreover from fullPages_nth [OF f a] obtain st' d where
      "snd (Xs ! j) = Response st' (Some d)" "ok st'" by blast
    ultimately show False using t that by simp
  qed
  from c show ?thesis
  proof (elim disjE conjE exE)
    fix d assume g: "getAllArtists net h = (Inr d, h @ Xs)"
    then have "issued h (snd (getAllArtists net h)) = Xs @ []" by simp
    from early [OF this] j g show ?thesis by simp
  next
    fix r' assume g: "getAllArtists net h =
                   (Inr mockArtists, h @ Xs @ [(artistsTopUrl (artistLimits ! length Xs), r')])"
    then have x: "issued h (snd (getAllArtists net h)) =
        Xs @ [(artistsTopUrl (artistLimits ! length Xs), r')]" by simp
    from early [OF x] j x have "j = length Xs" by simp
    with g x show ?thesis by simp
  next
    fix st' d
    assume o: "ok st'" and g: "getAllArtists net h =
                   (Inr d, h @ Xs @ [(artistsTopUrl (artistLimits ! length Xs), Response st' (Some d))])"
    then have x: "issued h (snd (getAllArtists net h)) =
        Xs @ [(artistsTopUrl (artistLimits ! length Xs), Response st' (Some d))]" by simp
    from early [OF x] j x have "j = length Xs" by simp
    with t x o show ?thesis by simp
  qed
qed

lemma fullPages_last_body:
  assumes f: "fullPages ls Xs" and n: "Xs \<noteq> []"
  shows "\<exists>st d. snd (last Xs) = Response st (Some d) \<and> ok st \<and> last (x # bodies Xs) = d"
proof -
  from n have i: "length Xs - 1 < length Xs" by simp
  from fullPages_nth [OF f i] obtain st d where
    r: "snd (Xs ! (length Xs - 1)) = Response st (Some d)" and o: "ok st" by blast
  from n have l: "last Xs = Xs ! (length Xs - 1)" by (rule last_conv_nth)
  have "last Xs = (fst (last Xs), snd (last Xs))" by simp
  with r l have e: "last Xs = (fst (last Xs), Response st (Some d))" by simp
  from n have "Xs = butlast Xs @ [last Xs]" by simp
  then have "bodies Xs = bodies (butlast Xs) @ bodies [(fst (last Xs), Response st (Some d))]"
    using e bodies_append by metis
  then have "bodies Xs = bodies (butlast Xs) @ [d]" using o by simp
  then have "last (x # bodies Xs) = d" by simp
  with r l o show ?thesis by simp
qed

lemma artists_full_page:
  assumes j: "j < length (issued h (snd (getAllArtists net h)))"
    and r: "snd (issued h (snd (getAllArtists net h)) ! j) = Response st (Some page)"
    and o: "ok st" and s: "artistLimits ! j \<le> length page"
  shows "(Suc j < length artistLimits \<longrightarrow> Suc j < length (issued h (snd (getAllArtists net h))))
     \<and> (Suc j = length artistLimits \<longrightarrow>
          length (issued h (snd (getAllArtists net h))) = Suc j
          \<and> fst (getAllArtists net h) = Inr page)"
proof -
  from getAllArtists_run [of net h] obtain Xs where f: "fullPages artistLimits Xs"
    and c: "getAllArtists net h = (Inr (last ([] # bodies Xs)), h @ Xs)
              \<and> length Xs = length artistLimits
         \<or> (\<exists>r. throws r \<and> length Xs < length artistLimits
              \<and> getAllArtists net h =
                   (Inr mockArtists, h @ Xs @ [(artistsTopUrl (artistLimits ! length Xs), r)]))
         \<or> (\<exists>st d. ok st \<and> length Xs < length artistLimits \<and> length d < artistLimits ! length Xs
              \<and> getAllArtists net h =
                   (Inr d, h @ Xs @ [(artistsTopUrl (artistLimits ! length Xs), Response st (Some d))]))"
    by blast
  from c show ?thesis
  proof (elim disjE conjE exE)
    assume g: "getAllArtists net h = (Inr (last ([] # bodies Xs)), h @ Xs)"
      and l: "length Xs = length artistLimits"
    from g have x: "issued h (snd (getAllArtists net h)) = Xs" by simp
    from j x have ne: "Xs \<noteq> []" by auto
    have "fst (getAllArtists net h) = Inr page" if e: "Suc j = length artistLimits"
    proof -
      from e l have "j = length Xs - 1" by simp
      with ne have "last Xs = Xs ! j" by (simp add: last_conv_nth)
      with r x have a: "snd (last Xs) = Response st (Some page)" by simp
      from fullPages_last_body [OF f ne, of "[]"] obtain st' d where
        "snd (last Xs) = Response st' (Some d)" and "last ([] # bodies Xs) = d" by blast
      with a have "last ([] # bodies Xs) = page" by simp
      with g show ?thesis by simp
    qed
    with x l show ?thesis by simp
  next
    fix r' assume t: "throws r'" and l: "length Xs < length artistLimits"
      and g: "getAllArtists net h =
                   (Inr mockArtists, h @ Xs @ [(artistsTopUrl (artistLimits ! length Xs), r')])"
    then have x: "issued h (snd (getAllArtists net h)) =
        Xs @ [(artistsTopUrl (artistLimits ! length Xs), r')]" by simp
    have "j \<noteq> length Xs"
    proof
      assume "j = length Xs"
      with r x have "r' = Response st (Some page)" by simp
      with t o show False by simp
    qed
    with j x have "j < length Xs" by simp
    with x l show ?thesis by simp
  next
    fix st' d
    assume l: "length Xs < length artistLimits" and sh: "length d < artistLimits ! length Xs"
      and g: "getAllArtists net h =
                   (Inr d, h @ Xs @ [(artistsTopUrl (artistLimits ! length Xs), Response st' (Some d))])"
    then have x: "issued h (snd (getAllArtists net h)) =
        Xs @ [(artistsTopUrl (artistLimits ! length Xs), Response st' (Some d))]" by simp
    have "j \<noteq> length Xs"
    proof
      assume e: "j = length Xs"
      with r x have "page = d" by simp
      with s sh e show False by simp
    qed
    with j x have "j < length Xs" by simp
    with x l show ?thesis by simp
  qed
qed

lemma artists_next_only_after_full:
  assumes j: "Suc j < length (issued h (snd (getAllArtists net h)))"
  shows "\<exists>st d. snd (issued h (snd (getAllArtists net h)) ! j) = Response st (Some d)
          \<and> ok st \<and> artistLimits ! j \<le> length d"
proof -
  from getAllArtists_run [of net h] obtain Xs where f: "fullPages artistLimits Xs"
    and c: "issued h (snd (getAllArtists net h)) = Xs
         \<or> (\<exists>e. issued h (snd (getAllArtists net h)) = Xs @ [e])"
    by (elim exE conjE disjE) (rule that, assumption, simp)+
  from c j have a: "j < length Xs" by auto
  from c a have "issued h (snd (getAllArtists net h)) ! j = Xs ! j"
    by (auto simp add: nth_append)
  with fullPages_nth [OF f a] show ?thesis by simp
qed

text \<open>
  Claim C3, as the code has it. The answers are arrays, as \<open>fetchJson<Event[]>\<close> and
  \<open>fetchJson<Artist[]>\<close> declare them. \<open>getAllEvents\<close> asks for the sizes 500, 400,
  300, 250, 200 in this descending order: as long as every request so far has thrown, the
  next request is for the next smaller size; when all five have thrown it returns the mock
  events after these five requests; and the first loop is left without a page only when
  all five have thrown. \<open>getAllArtists\<close> asks for the sizes 50, 100, 250, 500 in
  ascending order, and has no \<open>try\<close> inside its loop: its requests are for these sizes
  in order, starting with 50; a request answered with a full page (at least as many
  artists as requested) is followed by the request for the next larger size, and a full
  page for the last size, 500, is the result; a request is followed by another only when
  it was answered with a full page; and the first request that throws makes it return the
  mock artists at once, with no request for another size.
\<close>

theorem probe_sizes_and_fallback:
  fixes netE :: "event list network" and hE :: "event list history"
    and netA :: "artist list network" and hA :: "artist list history"
  defines "XE \<equiv> issued hE (snd (getAllEvents netE hE))"
    and "XA \<equiv> issued hA (snd (getAllArtists netA hA))"
  shows "directLimits = [500, 400, 300, 250, 200] \<and> sorted_wrt (\<lambda>a b. b < a) directLimits
   \<and> (\<forall>j<length directLimits.
         (\<forall>i<j. i < length XE \<and> throws (snd (XE ! i)))
         \<longrightarrow> j < length XE \<and> fst (XE ! j) = eventsTopUrl (directLimits ! j))
   \<and> ((\<forall>i<length directLimits. i < length XE \<and> throws (snd (XE ! i)))
         \<longrightarrow> fst (getAllEvents netE hE) = Inr mockEvents \<and> length XE = length directLimits)
   \<and> (fst (directProbe netE hE [] directLimits) = Base []
         \<longrightarrow> (\<forall>i<length directLimits. i < length XE \<and> throws (snd (XE ! i))))
   \<and> artistLimits = [50, 100, 250, 500] \<and> sorted_wrt (\<lambda>a b. a < b) artistLimits
   \<and> XA \<noteq> [] \<and> length XA \<le> length artistLimits
   \<and> (\<forall>j<length XA. fst (XA ! j) = artistsTopUrl (artistLimits ! j))
   \<and> (\<forall>j<length XA. throws (snd (XA ! j))
         \<longrightarrow> fst (getAllArtists netA hA) = Inr mockArtists \<and> length XA = Suc j)
   \<and> (\<forall>j st page. j < length XA \<and> snd (XA ! j) = Response st (Some page) \<and> ok st
           \<and> artistLimits ! j \<le> length page
         \<longrightarrow> (Suc j < length artistLimits \<longrightarrow> Suc j < length XA)
           \<and> (Suc j = length artistLimits \<longrightarrow>
                length XA = Suc j \<and> fst (getAllArtists netA hA) = Inr page))
   \<and> (\<forall>j. Suc j < length XA
         \<longrightarrow> (\<exists>st page. snd (XA ! j) = Response st (Some page) \<and> ok st
                 \<and> artistLimits ! j \<le> length page))"
proof -
  have 1: "directLimits = [500, 400, 300, 250, 200] \<and> sorted_wrt (\<lambda>a b. b < a) directLimits"
    by (simp add: directLimits_def)
  have 2: "\<forall>j<length directLimits.
         (\<forall>i<j. i < length XE \<and> throws (snd (XE ! i)))
         \<longrightarrow> j < length XE \<and> fst (XE ! j) = eventsTopUrl (directLimits ! j)"
    unfolding XE_def using events_next_size [of _ hE netE] by blast
  have 3: "(\<forall>i<length directLimits. i < length XE \<and> throws (snd (XE ! i)))
         \<longrightarrow> fst (getAllEvents netE hE) = Inr mockEvents \<and> length XE = length directLimits"
    unfolding XE_def using events_all_throw [of hE netE] by blast
  have 4: "fst (directProbe netE hE [] directLimits) = Base []
         \<longrightarrow> (\<forall>i<length directLimits. i < length XE \<and> throws (snd (XE ! i)))"
    unfolding XE_def using events_fallback_only_if [of netE hE] by blast
  have 5: "artistLimits = [50, 100, 250, 500] \<and> sorted_wrt (\<lambda>a b. a < b) artistLimits"
    by (simp add: artistLimits_def)
  have 6: "XA \<noteq> [] \<and> length XA \<le> length artistLimits
     \<and> (\<forall>j<length XA. fst (XA ! j) = artistsTopUrl (artistLimits ! j))"
    unfolding XA_def by (rule artists_requests)
  have 7: "\<forall>j<length XA. throws (snd (XA ! j))
         \<longrightarrow> fst (getAllArtists netA hA) = Inr mockArtists \<and> length XA = Suc j"
    unfolding XA_def using artists_throw_fallback [of _ hA netA] by blast
  have 8: "\<forall>j st page. j < length XA \<and> snd (XA ! j) = Response st (Some page) \<and> ok st
           \<and> artistLimits ! j \<le> length page
         \<longrightarrow> (Suc j < length artistLimits \<longrightarrow> Suc j < length XA)
           \<and> (Suc j = length artistLimits \<longrightarrow>
                length XA = Suc j \<and> fst (getAllArtists netA hA) = Inr page)"
    unfolding XA_def using artists_full_page [of _ hA netA] by blast
  have 9: "\<forall>j. Suc j < length XA
         \<longrightarrow> (\<exists>st page. snd (XA ! j) = Response st (Some page) \<and> ok st
                 \<and> artistLimits ! j \<le> length page)"
    unfolding XA_def using artists_next_only_after_full [of _ hA netA] by blast
  from 1 2 3 4 5 6 7 8 9 show ?thesis by (intro conjI) (elim conjE | assumption)+
qed

lemma merge_same_size_iff:
  "Map_size (merge m chunk) = Map_size m \<longleftrightarrow> (\<forall>ev\<in>set chunk. Map_has m (event.id ev))"
  using merge_same_size [of m chunk] merge_noop [of chunk m] by auto

text \<open>
  Claim C5. At any state of the inner loop of any strategy (any page index, collected
  Map, flag and history): when the page fetched for the index arrives and every one of
  its identifiers is already in the collected Map, the loop ends there: the Map and the
  flag are unchanged and the history has grown by this one request. The size of the Map
  has not grown, which is the test of the code (\<open>merge_same_size_iff\<close>).
\<close>

theorem no_new_ids_abandons_scheme:
  assumes "net h (API_BASE_URL @ buildUrl strat i) = Response st (Some chunk)" and "ok st"
    and "\<forall>ev\<in>set chunk. Map_has collectedMap (event.id ev)"
  shows "pageLoop net strat pageSize (i # rest) collectedMap success h =
           (collectedMap, success,
            h @ [(API_BASE_URL @ buildUrl strat i, Response st (Some chunk))])
       \<and> Map_size (merge collectedMap chunk) = Map_size collectedMap"
proof -
  have f: "fetchJson net h (buildUrl strat i) =
      (Inr chunk, h @ [(API_BASE_URL @ buildUrl strat i, Response st (Some chunk))])"
    using assms(1,2) by (rule fetchJson_value)
  have m: "merge collectedMap chunk = collectedMap" using assms(3) by (rule merge_noop)
  show ?thesis by (simp add: f m)
qed

section \<open>Evaluations\<close>

lemma getAllEvents_deadServer:
  "getAllEvents deadServer [] =
     (Inr mockEvents,
      [(''http://localhost:8080/events/top?limit=500'', Rejected),
       (''http://localhost:8080/events/top?limit=400'', Rejected),
       (''http://localhost:8080/events/top?limit=300'', Rejected),
       (''http://localhost:8080/events/top?limit=250'', Rejected),
       (''http://localhost:8080/events/top?limit=200'', Rejected)])"
  by (simp add: getAllEvents_def getAllEvents_try_def directLimits_def fetchJson_def
      deadServer_def show_nat_limits API_BASE_URL_def)

lemma getAllArtists_limit50Down:
  "getAllArtists limit50Down [] =
     (Inr mockArtists, [(''http://localhost:8080/artists/top?limit=50'', Rejected)])"
  by (simp add: getAllArtists_def artistLimits_def fetchJson_def limit50Down_def
      show_nat_limits API_BASE_URL_def)

lemma getAllArtists_honoursLimit:
  "getAllArtists honoursLimit [] =
     (Inr (replicate 500 (hd mockArtists)),
      [(''http://localhost:8080/artists/top?limit=50'',
        Response 200 (Some (replicate 50 (hd mockArtists)))),
       (''http://localhost:8080/artists/top?limit=100'',
        Response 200 (Some (replicate 100 (hd mockArtists)))),
       (''http://localhost:8080/artists/top?limit=250'',
        Response 200 (Some (replicate 250 (hd mockArtists)))),
       (''http://localhost:8080/artists/top?limit=500'',
        Response 200 (Some (replicate 500 (hd mockArtists))))])"
  by (simp add: getAllArtists_def artistLimits_def fetchJson_def honoursLimit_def
      show_nat_limits API_BASE_URL_def ok_def)

lemma getAllEvents_secondTry:
  "getAllEvents secondTry [] =
     (Inr (numbered 3),
      [(''http://localhost:8080/events/top?limit=500'', TimedOut),
       (''http://localhost:8080/events/top?limit=400'', Response 200 (Some (numbered 3)))])"
  by (simp add: getAllEvents_def getAllEvents_try_def directLimits_def fetchJson_def
      secondTry_def show_nat_limits API_BASE_URL_def ok_def)

lemma getAllArtists_constServer_Nil:
  "getAllArtists (constServer []) [] =
     (Inr [], [(''http://localhost:8080/artists/top?limit=50'', Response 200 (Some []))])"
  by (simp add: getAllArtists_def artistLimits_def fetchJson_constServer
      show_nat_limits API_BASE_URL_def)

text \<open>
  \<open>getAllArtists\<close> on a server that rejects only the request for 50 artists: the mock
  artists are returned after that single request, although the request for 100 would not
  have thrown; and the sizes of \<open>getAllArtists\<close> ascend.
\<close>

theorem probe_sizes_counterexample:
  "getAllArtists limit50Down [] =
     (Inr mockArtists, [(''http://localhost:8080/artists/top?limit=50'', Rejected)])
   \<and> \<not> throws (limit50Down [(''http://localhost:8080/artists/top?limit=50'', Rejected)]
                   ''http://localhost:8080/artists/top?limit=100'')
   \<and> artistLimits = [50, 100, 250, 500]"
proof -
  have b: "\<not> throws (limit50Down [(''http://localhost:8080/artists/top?limit=50'', Rejected)]
                   ''http://localhost:8080/artists/top?limit=100'')"
    by (simp add: limit50Down_def ok_def)
  have c: "artistLimits = [50, 100, 250, 500]" by (simp add: artistLimits_def)
  from getAllArtists_limit50Down b c show ?thesis by (intro conjI)
qed

text \<open>
  \<open>getAllEvents\<close> on a server that rejects everything (five requests, the second for
  400 events), \<open>getAllArtists\<close> on the server that rejects the request for 50 (one
  request), and \<open>getAllArtists\<close> on the server that honours the limit: four requests,
  for 50, 100, 250 and 500 artists, and the page of 500 is the result.
\<close>

theorem probe_sizes_and_fallback_witness:
  "fst (getAllEvents deadServer []) = Inr mockEvents
   \<and> length (issued [] (snd (getAllEvents deadServer []))) = 5
   \<and> fst (issued [] (snd (getAllEvents deadServer [])) ! 1) = eventsTopUrl 400
   \<and> fst (getAllArtists limit50Down []) = Inr mockArtists
   \<and> length (issued [] (snd (getAllArtists limit50Down []))) = 1
   \<and> map fst (issued [] (snd (getAllArtists honoursLimit []))) =
       [artistsTopUrl 50, artistsTopUrl 100, artistsTopUrl 250, artistsTopUrl 500]
   \<and> fst (getAllArtists honoursLimit []) = Inr (replicate 500 (hd mockArtists))"
proof -
  have a: "fst (getAllEvents deadServer []) = Inr mockEvents
   \<and> length (issued [] (snd (getAllEvents deadServer []))) = 5
   \<and> fst (issued [] (snd (getAllEvents deadServer [])) ! 1) = eventsTopUrl 400
   \<and> fst (getAllArtists limit50Down []) = Inr mockArtists
   \<and> length (issued [] (snd (getAllArtists limit50Down []))) = 1"
    using probe_sizes_and_fallback [of "[]" deadServer "[]" limit50Down]
    by (simp add: getAllEvents_deadServer getAllArtists_limit50Down issued_def directLimits_def
        eventsTopUrl_def show_nat_limits API_BASE_URL_def)
  have b: "map fst (issued [] (snd (getAllArtists honoursLimit []))) =
       [artistsTopUrl 50, artistsTopUrl 100, artistsTopUrl 250, artistsTopUrl 500]
   \<and> fst (getAllArtists honoursLimit []) = Inr (replicate 500 (hd mockArtists))"
    using probe_sizes_and_fallback [of "[]" deadServer "[]" honoursLimit]
    by (simp add: getAllArtists_honoursLimit issued_def artistsTopUrl_def show_nat_limits
        API_BASE_URL_def)
  from a b show ?thesis by (elim conjE) (intro conjI)
qed

text \<open>
  A short page on the second request for events (the first timed out), and on the first
  request for artists.
\<close>

theorem short_page_returned_witness:
  "fst (getAllEvents secondTry []) = Inr (numbered 3)
   \<and> length (issued [] (snd (getAllEvents secondTry []))) = 2
   \<and> fst (getAllArtists (constServer []) []) = Inr []
   \<and> length (issued [] (snd (getAllArtists (constServer []) []))) = 1"
  using short_page_returned [of "[]" secondTry "[]" "constServer []"]
  by (simp add: getAllEvents_secondTry getAllArtists_constServer_Nil issued_def)

text \<open>
  The first page of the offset strategy repeats the two events already collected: one
  request, although the index 2 was still to come.
\<close>

theorem no_new_ids_abandons_scheme_witness:
  "pageLoop (constServer (numbered 2)) (hd (strategies 200)) 200 [1, 2]
      (Map_new (map (\<lambda>e. (event.id e, e)) (numbered 2))) False [] =
     (Map_new (map (\<lambda>e. (event.id e, e)) (numbered 2)), False,
      [(''http://localhost:8080/events/top?limit=200&offset=200'', Response 200 (Some (numbered 2)))])"
proof -
  have a: "constServer (numbered 2) [] (API_BASE_URL @ buildUrl (hd (strategies 200)) 1)
      = Response 200 (Some (numbered 2))"
    by (simp add: constServer_def)
  have b: "ok 200" by (simp add: ok_def)
  have c: "\<forall>ev\<in>set (numbered 2).
      Map_has (Map_new (map (\<lambda>e. (event.id e, e)) (numbered 2))) (event.id ev)"
    by (simp add: Map_new_has)
  have u: "API_BASE_URL @ buildUrl (hd (strategies 200)) 1
      = ''http://localhost:8080/events/top?limit=200&offset=200''"
    by (simp add: strategies_def API_BASE_URL_def show_nat_limits)
  from no_new_ids_abandons_scheme [where net = "constServer (numbered 2)" and h = "[]"
      and strat = "hd (strategies 200)" and i = 1 and st = 200 and chunk = "numbered 2"
      and collectedMap = "Map_new (map (\<lambda>e. (event.id e, e)) (numbered 2))"
      and pageSize = 200 and rest = "[2]" and success = False, OF a b c]
  show ?thesis
    unfolding u by simp
qed

text \<open>
  Claim C1. The claim bounds the collected set and the returned sequence by
  \<open>maxTotal = 1000\<close>, and the source declares \<open>maxTotal\<close> as the upper limit (the
  comment at its declaration). The code does not keep this bound. On \<open>freshPages\<close>,
  where no page is longer than the limit requested (500 events on the first request, then
  200 events not sent before on every later one), the offset strategy collects 700, 900
  and then 1100 events, and all 1100 are returned: a page is merged whole before the size
  is tested, and nothing is cut to \<open>maxTotal\<close>. On a server that ignores \<open>limit\<close>
  and answers the request for 500 events with all its 1001 events, of distinct
  identifiers, the base page alone fills the collected set with 1001 entries, and all of
  them are returned.
\<close>

theorem getAllEvents_exceeds_maxTotal:
  "fst (getAllEvents freshPages []) = Inr (numbered 1100)
   \<and> maxTotal < length (numbered 1100)
   \<and> list_all (\<lambda>p. length p \<le> 500) (bodies (snd (getAllEvents freshPages [])))
   \<and> getAllEvents (constServer (numbered 1001)) [] =
       (Inr (numbered 1001),
        [(''http://localhost:8080/events/top?limit=500'', Response 200 (Some (numbered 1001)))])
   \<and> maxTotal < length (numbered 1001)"
proof -
  have a: "getAllEvents (constServer (numbered 1001)) [] =
     (Inr (numbered 1001),
      [(''http://localhost:8080/events/top?limit=500'', Response 200 (Some (numbered 1001)))])"
    by (rule getAllEvents_constServer_1001)
  have b: "maxTotal < length (numbered 1001)" "maxTotal < length (numbered 1100)"
    by (simp_all add: maxTotal_def)
  from a b getAllEvents_freshPages show ?thesis by (intro conjI) simp_all
qed

text \<open>
  The first-seen statement on the server that repeats one page of 500 events: the base
  page is that page, and the three repeated pages add nothing.
\<close>

theorem pagination_first_seen_witness:
  "fst (directProbe (constServer (numbered 500)) [] [] directLimits) = Base (numbered 500)
   \<and> numbered 500 \<noteq> []
   \<and> fst (getAllEvents (constServer (numbered 500)) []) = Inr (numbered 500)
   \<and> map event.id (numbered 500)
        = firstSeen (ids (bodies (snd (getAllEvents (constServer (numbered 500)) []))))
   \<and> distinct (map event.id (numbered 500))"
proof -
  let ?X = "snd (getAllEvents (constServer (numbered 500)) [])"
  have a: "fst (directProbe (constServer (numbered 500)) [] [] directLimits) = Base (numbered 500)"
    by (simp add: directProbe_constServer)
  have n: "numbered 500 \<noteq> []" by (rule numbered_nonempty) simp
  have r: "fst (getAllEvents (constServer (numbered 500)) []) = Inr (numbered 500)"
    by (simp add: getAllEvents_constServer_500)
  from pagination_first_seen [OF a n] obtain X res where
    g: "getAllEvents (constServer (numbered 500)) [] = (Inr res, [] @ X)"
    and i: "map event.id res = firstSeen (ids (bodies X))"
    and d: "distinct (map event.id res)"
    by blast
  from g have x: "X = ?X" by simp
  from g r have rr: "res = numbered 500" by simp
  from i have 4: "map event.id (numbered 500) = firstSeen (ids (bodies ?X))" unfolding x rr .
  from d have 5: "distinct (map event.id (numbered 500))" unfolding rr .
  from a n r 4 5 show ?thesis by (intro conjI)
qed

text \<open>
  A request that succeeds and yet gives \<open>disconnected\<close>: the server answers with status
  200 and the JSON text \<open>null\<close>. \<open>fetchJson\<close> returns \<open>null\<close>, reading
  \<open>response.message\<close> throws inside the \<open>try\<close>, and the \<open>catch\<close> answers.
\<close>

theorem checkHealth_null_counterexample:
  "checkHealth nullServer [] =
     (Inr \<lparr>health.status = ''disconnected'', message = JStr ''Java backend not accessible''\<rparr>,
      [(''http://localhost:8080/health'', Response 200 (Some JNull))])
   \<and> fetchJson nullServer [] ''/health'' =
       (Inr JNull, [(''http://localhost:8080/health'', Response 200 (Some JNull))])"
  by (simp add: checkHealth_def fetchJson_def nullServer_def constServer_def healthOf_def
      disconnected_def ok_def API_BASE_URL_def)

text \<open>
  \<open>checkHealth\<close> on a server with a message, on one with an empty message, on one
  that answers \<open>null\<close>, and on one that rejects.
\<close>

theorem checkHealth_contract_witness:
  "checkHealth healthyServer [] =
     (Inr \<lparr>health.status = ''connected'', message = JStr ''All systems go''\<rparr>,
      [(''http://localhost:8080/health'',
        Response 200 (Some (JObj [(''status'', JStr ''UP''), (''message'', JStr ''All systems go'')])))])
   \<and> fst (checkHealth silentServer []) =
       Inr \<lparr>health.status = ''connected'', message = JStr ''Backend is healthy''\<rparr>
   \<and> fst (checkHealth nullServer []) =
       Inr \<lparr>health.status = ''disconnected'', message = JStr ''Java backend not accessible''\<rparr>
   \<and> checkHealth (deadServer :: int json network) [] =
       (Inr \<lparr>health.status = ''disconnected'', message = JStr ''Java backend not accessible''\<rparr>,
        [(''http://localhost:8080/health'', Rejected)])"
proof -
  have 1: "checkHealth healthyServer [] =
     (Inr \<lparr>health.status = ''connected'', message = JStr ''All systems go''\<rparr>,
      [(''http://localhost:8080/health'',
        Response 200 (Some (JObj [(''status'', JStr ''UP''), (''message'', JStr ''All systems go'')])))])"
    using checkHealth_contract [of healthyServer "[]"]
    by (simp add: healthyServer_def constServer_def ok_def API_BASE_URL_def prod_eq_iff
        getProp_def truthy_def)
  have 2: "fst (checkHealth silentServer []) =
       Inr \<lparr>health.status = ''connected'', message = JStr ''Backend is healthy''\<rparr>"
    using checkHealth_contract [of silentServer "[]"]
    by (simp add: silentServer_def constServer_def ok_def getProp_def truthy_def)
  have 3: "fst (checkHealth nullServer []) =
       Inr \<lparr>health.status = ''disconnected'', message = JStr ''Java backend not accessible''\<rparr>"
    using checkHealth_contract [of nullServer "[]"]
    by (simp add: nullServer_def constServer_def ok_def)
  have 4: "checkHealth (deadServer :: int json network) [] =
       (Inr \<lparr>health.status = ''disconnected'', message = JStr ''Java backend not accessible''\<rparr>,
        [(''http://localhost:8080/health'', Rejected)])"
    using checkHealth_contract [of "deadServer :: int json network" "[]"]
    by (simp add: deadServer_def API_BASE_URL_def prod_eq_iff)
  from 1 2 3 4 show ?thesis by (intro conjI)
qed

text \<open>
  Claim C2, as the code has it. \<open>checkHealth\<close>, \<open>getStats\<close>, \<open>getTopArtists\<close>,
  \<open>getTopEvents\<close>, \<open>getAllArtists\<close>, \<open>getAllEvents\<close>, \<open>searchArtists\<close> and
  \<open>searchEvents\<close> return a value for every input and every network. \<open>getArtist\<close>
  and \<open>getEvent\<close> throw exactly when the request throws and the identifier is not one
  of the mock data, and then the exception is \<open>Artist not found\<close> or
  \<open>Event not found\<close>.
\<close>

theorem methods_throw_only_not_found:
  "(\<exists>v. fst (checkHealth n1 h1) = Inr v)
   \<and> (\<exists>v. fst (getStats n2 h2) = Inr v)
   \<and> (\<exists>v. fst (getTopArtists toStr3 n3 h3 l3) = Inr v)
   \<and> (\<exists>v. fst (getTopEvents toStr4 n4 h4 l4) = Inr v)
   \<and> (\<exists>v. fst (getAllArtists n5 h5) = Inr v)
   \<and> (\<exists>v. fst (getAllEvents n6 h6) = Inr v)
   \<and> (\<exists>v. fst (searchArtists enc7 lower7 n7 h7 q7) = Inr v)
   \<and> (\<exists>v. fst (searchEvents enc8 lower8 n8 h8 q8) = Inr v)
   \<and> (throws (n9 h9 (API_BASE_URL @ ''/artists/'' @ i9)) \<and> i9 \<notin> set (map artist.id mockArtists)
        \<longrightarrow> fst (getArtist n9 h9 i9) = Inl (Error ''Artist not found''))
   \<and> (\<not> throws (n9 h9 (API_BASE_URL @ ''/artists/'' @ i9)) \<or> i9 \<in> set (map artist.id mockArtists)
        \<longrightarrow> (\<exists>v. fst (getArtist n9 h9 i9) = Inr v))
   \<and> (throws (n10 h10 (API_BASE_URL @ ''/events/'' @ i10)) \<and> i10 \<notin> set (map event.id mockEvents)
        \<longrightarrow> fst (getEvent n10 h10 i10) = Inl (Error ''Event not found''))
   \<and> (\<not> throws (n10 h10 (API_BASE_URL @ ''/events/'' @ i10)) \<or> i10 \<in> set (map event.id mockEvents)
        \<longrightarrow> (\<exists>v. fst (getEvent n10 h10 i10) = Inr v))"
  using never_throws_checkHealth [of n1 h1] never_throws_getStats [of n2 h2]
    never_throws_getTopArtists [of toStr3 n3 h3 l3] never_throws_getTopEvents [of toStr4 n4 h4 l4]
    never_throws_getAllArtists [of n5 h5] never_throws_getAllEvents [of n6 h6]
    never_throws_searchArtists [of enc7 lower7 n7 h7 q7]
    never_throws_searchEvents [of enc8 lower8 n8 h8 q8]
    getArtist_throws_iff [of n9 h9 i9] getEvent_throws_iff [of n10 h10 i10]
  by (intro conjI) (elim conjE | assumption)+

text \<open>
  \<open>getArtist\<close> and \<open>getEvent\<close> throw to their caller: the request is rejected and
  the mock data has no item 999.
\<close>

theorem methods_never_throw_counterexample:
  "fst (getArtist deadServer [] ''999'') = Inl (Error ''Artist not found'')
   \<and> fst (getEvent deadServer [] ''999'') = Inl (Error ''Event not found'')"
  by (simp add: getArtist_def getEvent_def fetchJson_def deadServer_def mockArtists_def mockEvents_def)

text \<open>
  The two lookups on a server that rejects, with identifiers inside and outside the mock
  data, \<open>getEvent\<close> on a server that answers, and \<open>getTopArtists\<close> falling back.
\<close>

theorem methods_throw_only_not_found_witness:
  "fst (getArtist deadServer [] ''5'') = Inl (Error ''Artist not found'')
   \<and> fst (getArtist deadServer [] ''2'') = Inr (mockArtists ! 1)
   \<and> fst (getEvent deadServer [] ''3'') = Inl (Error ''Event not found'')
   \<and> fst (getEvent (constServer (hd mockEvents)) [] ''3'') = Inr (hd mockEvents)
   \<and> fst (getTopArtists (\<lambda>i. show_nat (nat i)) deadServer [] (Some 1)) = Inr [hd mockArtists]"
  using methods_throw_only_not_found [where ?n9.0 = deadServer and ?h9.0 = "[]" and ?i9.0 = "''5''"
      and ?n10.0 = deadServer and ?h10.0 = "[]" and ?i10.0 = "''3''"]
  by (simp add: getArtist_def getEvent_def getTopArtists_def fetchJson_def deadServer_def
      constServer_def ok_def mockArtists_def mockEvents_def slice0_def)

text \<open>The same on a server that rejects and on one that answers 500.\<close>

theorem all_requests_fail_mock_data_witness:
  "fst (getAllArtists deadServer []) = Inr mockArtists
   \<and> fst (getAllEvents (\<lambda>h u. Response 500 None) []) = Inr mockEvents
   \<and> length mockArtists = 4 \<and> length mockEvents = 2"
  using all_requests_fail_mock_data [of deadServer "\<lambda>h u. Response 500 None" "[]" "[]"]
  by (simp add: deadServer_def ok_def)

end
